theory Spec2Isabelle
  imports Complex_Main
begin

section \<open>Two-dimensional arrays\<close>

text \<open>
  The reductions of \<^verbatim>\<open>gpjax/rkhs/reduce/repetitions.py\<close> work on two-dimensional
  arrays of the array library. An array is modelled as the library stores it: its shape
  and its elements in row-major order. Floating-point entries are idealised as real
  numbers, so every equation below is one of exact arithmetic. Index arrays hold row
  positions and are arrays of naturals.
\<close>

datatype error = ValueError | TypeError | IndexError | AssertionError | ZeroDivisionError

record 'a ndarray =
  shape0 :: nat
  shape1 :: nat
  flat :: "'a list"

definition wf_array :: "'a ndarray \<Rightarrow> bool" where
  "wf_array A \<longleftrightarrow> length (flat A) = shape0 A * shape1 A"

definition row :: "'a ndarray \<Rightarrow> nat \<Rightarrow> 'a list" where
  "row A i = take (shape1 A) (drop (i * shape1 A) (flat A))"

definition rows :: "'a ndarray \<Rightarrow> 'a list list" where
  "rows A = map (row A) [0..<shape0 A]"

definition of_rows :: "nat \<Rightarrow> 'a list list \<Rightarrow> 'a ndarray" where
  "of_rows c rs = \<lparr>shape0 = length rs, shape1 = c, flat = concat rs\<rparr>"

text \<open>\<^verbatim>\<open>inp[:, None]\<close>: a one-dimensional array as a column.\<close>

definition column :: "'a list \<Rightarrow> 'a ndarray" where
  "column xs = \<lparr>shape0 = length xs, shape1 = 1, flat = xs\<rparr>"

text \<open>\<^verbatim>\<open>np.zeros((r, c))\<close> and \<^verbatim>\<open>np.eye(n)\<close>.\<close>

definition zeros :: "nat \<Rightarrow> nat \<Rightarrow> real ndarray" where
  "zeros r c = \<lparr>shape0 = r, shape1 = c, flat = replicate (r * c) 0\<rparr>"

definition eye :: "nat \<Rightarrow> real ndarray" where
  "eye n = of_rows n (map (\<lambda>i. map (\<lambda>j. if i = j then 1 else 0) [0..<n]) [0..<n])"

text \<open>
  The matrix product \<^verbatim>\<open>A @ B\<close> of the array library: it raises unless the inner
  dimensions agree.
\<close>

definition dot :: "real list \<Rightarrow> real ndarray \<Rightarrow> nat \<Rightarrow> real" where
  "dot r B j = (\<Sum>k\<leftarrow>[0..<shape0 B]. r ! k * flat B ! (k * shape1 B + j))"

definition matmul :: "real ndarray \<Rightarrow> real ndarray \<Rightarrow> error + real ndarray" where
  "matmul A B =
     (if shape1 A \<noteq> shape0 B then Inl ValueError
      else Inr (of_rows (shape1 B)
             (map (\<lambda>r. map (dot r B) [0..<shape1 B]) (rows A))))"

text \<open>
  \<^verbatim>\<open>np.repeat(inp, times, 0)\<close> repeats every row \<open>tms\<close> times in place, one row
  after the other; a negative count is refused by the library.
\<close>

definition np_repeat :: "'a ndarray \<Rightarrow> int \<Rightarrow> error + 'a ndarray" where
  "np_repeat inp tms =
     (if tms < 0 then Inl ValueError
      else Inr (of_rows (shape1 inp) (concat (map (replicate (nat tms)) (rows inp)))))"

text \<open>
  \<^verbatim>\<open>tile_view(inp, reps)\<close>: \<^verbatim>\<open>inp.ravel()\<close> is the row-major element list,
  \<^verbatim>\<open>np.broadcast_to(_, (reps, inp.size))\<close> lays it out \<open>reps\<close> times (and refuses a
  negative \<open>reps\<close>), and the reshape reads the same elements as
  \<open>reps * inp.shape[0]\<close> rows of \<open>inp.shape[1]\<close> columns.
\<close>

definition tile_view :: "'a ndarray \<Rightarrow> int \<Rightarrow> error + 'a ndarray" where
  "tile_view inp reps =
     (if reps < 0 then Inl ValueError
      else Inr \<lparr>shape0 = nat reps * shape0 inp, shape1 = shape1 inp,
                flat = concat (replicate (nat reps) (flat inp))\<rparr>)"

section \<open>The reductions\<close>

text \<open>
  \<open>Repeat\<close>, \<open>TileView\<close> and \<open>SparseReduce\<close> are the classes of
  \<^verbatim>\<open>repetitions.py\<close>; \<open>SparseReduce\<close> carries \<open>idcs\<close>, \<open>average\<close> and the
  \<open>max_idx\<close> that \<^verbatim>\<open>__post_init__\<close> has settled. \<open>Identity\<close>, \<open>LinearReduce\<close> and
  \<open>ChainedReduce\<close> are imported by that file from a module that is not among the
  sources, and so are the \<open>Sum\<close> and \<open>Mean\<close> that \<^verbatim>\<open>vector.py\<close> uses; they appear
  here as constructors, and what the text below says about their behaviour is taken from
  the specification.
\<close>

datatype reduce =
    Identity
  | Repeat int
  | TileView int
  | SparseReduce "nat ndarray list" bool int
  | LinearReduce "real ndarray"
  | ChainedReduce "reduce list"
  | Sum
  | Mean

text \<open>The argument of the application operator \<^verbatim>\<open>@\<close>: a reduction or an array.\<close>

datatype operand = Red reduce | Arr "real ndarray"

subsection \<open>Repeat\<close>

definition Repeat_post_init :: "int \<Rightarrow> error + reduce" where
  "Repeat_post_init tms = (if tms \<le> 1 then Inl ValueError else Inr (Repeat tms))"

fun Repeat_matmul :: "int \<Rightarrow> operand \<Rightarrow> error + operand" where
  "Repeat_matmul tms (Red r) = Inr (Red (ChainedReduce [Repeat tms, r]))"
| "Repeat_matmul tms (Arr inp) = map_sum id Arr (np_repeat inp tms)"

definition Repeat_new_len :: "int \<Rightarrow> int \<Rightarrow> int" where
  "Repeat_new_len tms original_len = original_len * tms"

subsection \<open>TileView\<close>

definition TileView_post_init :: "int \<Rightarrow> error + reduce" where
  "TileView_post_init result_len =
     (if result_len < 2 then Inl ValueError else Inr (TileView result_len))"

text \<open>
  \<^verbatim>\<open>self.result_len % inp.shape[0]\<close> is a remainder of Python integers: it raises
  \<^verbatim>\<open>ZeroDivisionError\<close> on an array without rows.
\<close>

fun TileView_matmul :: "int \<Rightarrow> operand \<Rightarrow> error + operand" where
  "TileView_matmul result_len (Red r) = Inr (Red (ChainedReduce [TileView result_len, r]))"
| "TileView_matmul result_len (Arr inp) =
     (if shape0 inp = 0 then Inl ZeroDivisionError
      else if result_len mod int (shape0 inp) \<noteq> 0 then Inl ValueError
      else map_sum id Arr (tile_view inp (result_len div int (shape0 inp))))"

definition TileView_new_len :: "int \<Rightarrow> int \<Rightarrow> int" where
  "TileView_new_len result_len original_len = result_len"

text \<open>
  \<^verbatim>\<open>inp_shape[axis]\<close> on a pair, with Python's negative positions.
\<close>

definition shape_at :: "nat \<times> nat \<Rightarrow> int \<Rightarrow> error + nat" where
  "shape_at s axis =
     (if axis = 0 \<or> axis = -2 then Inr (fst s)
      else if axis = 1 \<or> axis = -1 then Inr (snd s)
      else Inl IndexError)"

definition TileView_linmap :: "int \<Rightarrow> nat \<times> nat \<Rightarrow> int \<Rightarrow> error + real ndarray" where
  "TileView_linmap result_len inp_shape axis =
     (case shape_at inp_shape axis of
        Inl e \<Rightarrow> Inl e
      | Inr n \<Rightarrow> if n = 0 then Inl ZeroDivisionError
                 else tile_view (eye n) (result_len div int n))"

subsection \<open>SparseReduce\<close>

text \<open>
  \<^verbatim>\<open>__post_init__\<close>: without a given \<open>max_idx\<close> the largest index of the non-empty
  blocks is taken; the maximum of an empty collection raises.
\<close>

definition SparseReduce_post_init ::
  "nat ndarray list \<Rightarrow> bool \<Rightarrow> int option \<Rightarrow> error + reduce" where
  "SparseReduce_post_init idcs average max_idx =
     (case max_idx of
        Some m \<Rightarrow> Inr (SparseReduce idcs average m)
      | None \<Rightarrow>
          (let max_list = map (\<lambda>i. Max (set (flat i))) (filter (\<lambda>i. flat i \<noteq> []) idcs)
           in if max_list = [] then Inl ValueError
              else Inr (SparseReduce idcs average (int (Max (set max_list))))))"

text \<open>
  \<^verbatim>\<open>inp[list(idx), :]\<close>: the rows of \<open>inp\<close> at the listed positions. The array
  library clamps a position beyond the last row to the last row; there is no row to
  return from an array without rows.
\<close>

definition gather_rows :: "'a ndarray \<Rightarrow> nat list \<Rightarrow> error + 'a list list" where
  "gather_rows inp idx =
     (if idx = [] then Inr []
      else if shape0 inp = 0 then Inl IndexError
      else Inr (map (\<lambda>i. row inp (min i (shape0 inp - 1))) idx))"

text \<open>
  \<^verbatim>\<open>.reshape((-1, c, m))\<close> of the gathered rows: consecutive groups of \<open>c\<close> rows. The
  library cannot infer the free dimension when \<open>c * m = 0\<close> and raises.
\<close>

definition reshape_groups :: "nat \<Rightarrow> nat \<Rightarrow> 'a list list \<Rightarrow> error + 'a list list list" where
  "reshape_groups c m G =
     (if c * m = 0 then Inl ValueError
      else Inr (map (\<lambda>g. take c (drop (g * c) G)) [0..<length G div c]))"

text \<open>\<^verbatim>\<open>np.sum(_, 1)\<close> and \<^verbatim>\<open>np.mean(_, 1)\<close> of one group of rows with \<open>m\<close> columns.\<close>

definition sum_axis :: "nat \<Rightarrow> real list list \<Rightarrow> real list" where
  "sum_axis m grp = map (\<lambda>j. \<Sum>r\<leftarrow>grp. r ! j) [0..<m]"

definition mean_axis :: "nat \<Rightarrow> real list list \<Rightarrow> real list" where
  "mean_axis m grp = map (\<lambda>j. (\<Sum>r\<leftarrow>grp. r ! j) / real (length grp)) [0..<m]"

definition reduce_axis :: "bool \<Rightarrow> nat \<Rightarrow> real list list \<Rightarrow> real list" where
  "reduce_axis average m grp = (if average then mean_axis m grp else sum_axis m grp)"

text \<open>One turn of the loop of \<^verbatim>\<open>SparseReduce.__matmul__\<close>: the rows one block adds.\<close>

definition reduce_block :: "bool \<Rightarrow> real ndarray \<Rightarrow> nat ndarray \<Rightarrow> error + real list list" where
  "reduce_block average inp b =
     (if shape1 b = 0 then Inr (replicate (shape0 b) (replicate (shape1 inp) 0))
      else case gather_rows inp (flat b) of
             Inl e \<Rightarrow> Inl e
           | Inr G \<Rightarrow>
               (case reshape_groups (shape1 b) (shape1 inp) G of
                  Inl e \<Rightarrow> Inl e
                | Inr grps \<Rightarrow> Inr (map (reduce_axis average (shape1 inp)) grps)))"

fun collect :: "(error + 'a) list \<Rightarrow> error + 'a list" where
  "collect [] = Inr []"
| "collect (Inl e # xs) = Inl e"
| "collect (Inr x # xs) = (case collect xs of Inl e \<Rightarrow> Inl e | Inr ys \<Rightarrow> Inr (x # ys))"

text \<open>
  \<^verbatim>\<open>SparseReduce.__matmul__\<close> has no branch for a reduction as its argument: it
  starts with \<^verbatim>\<open>len(inp)\<close>, which a reduction does not have. Every array of the model
  is two-dimensional, so the check of \<^verbatim>\<open>len(inp.shape)\<close> always passes.
  \<^verbatim>\<open>np.concatenate\<close> raises on an empty list of arrays.
\<close>

fun SparseReduce_matmul :: "nat ndarray list \<Rightarrow> bool \<Rightarrow> int \<Rightarrow> operand \<Rightarrow> error + operand" where
  "SparseReduce_matmul idcs average max_idx (Red r) = Inl TypeError"
| "SparseReduce_matmul idcs average max_idx (Arr inp) =
     (if max_idx + 1 > int (shape0 inp) then Inl ValueError
      else case collect (map (reduce_block average inp) idcs) of
             Inl e \<Rightarrow> Inl e
           | Inr rval \<Rightarrow>
               if rval = [] then Inl ValueError
               else Inr (Arr (of_rows (shape1 inp) (concat rval))))"

definition SparseReduce_new_len :: "nat ndarray list \<Rightarrow> int \<Rightarrow> int \<Rightarrow> error + int" where
  "SparseReduce_new_len idcs max_idx original_len =
     (if max_idx + 1 \<le> original_len then Inr (int (length idcs)) else Inl AssertionError)"

text \<open>
  \<^verbatim>\<open>lin_map.at[(idx1, idx2)].set(w)\<close>: one entry after the other is overwritten with
  \<open>w\<close>; the array library drops an update outside the array.
\<close>

definition at_set :: "real list \<Rightarrow> nat \<Rightarrow> nat \<Rightarrow> (nat \<times> nat) list \<Rightarrow> real \<Rightarrow> real list" where
  "at_set lin_map n_out n_in ps w =
     foldl (\<lambda>L (i, k). if i < n_out \<and> k < n_in then L[i * n_in + k := w] else L) lin_map ps"

text \<open>The loop of \<^verbatim>\<open>SparseReduce.linmap\<close>, with its running \<open>offset\<close>.\<close>

fun linmap_loop ::
  "bool \<Rightarrow> nat \<Rightarrow> nat \<Rightarrow> nat ndarray list \<Rightarrow> nat \<Rightarrow> real list \<Rightarrow> real list" where
  "linmap_loop average n_out n_in [] offset lin_map = lin_map"
| "linmap_loop average n_out n_in (b # bs) offset lin_map =
     linmap_loop average n_out n_in bs (offset + shape0 b)
       (if shape1 b \<noteq> 0
        then at_set lin_map n_out n_in
               (zip (concat (map (replicate (shape1 b)) (map (\<lambda>g. g + offset) [0..<shape0 b])))
                    (flat b))
               (if average then 1 / real (shape1 b) else 1)
        else lin_map)"

definition SparseReduce_linmap ::
  "nat ndarray list \<Rightarrow> bool \<Rightarrow> int \<Rightarrow> nat \<times> nat \<Rightarrow> int \<Rightarrow> error + real ndarray" where
  "SparseReduce_linmap idcs average max_idx inp_shape axis =
     (let n_in = max_idx + 1
      in case shape_at inp_shape axis of
           Inl e \<Rightarrow> Inl e
         | Inr s \<Rightarrow>
             if int s \<noteq> n_in then Inl ValueError
             else let n_out = sum_list (map shape0 idcs)
                  in Inr \<lparr>shape0 = n_out, shape1 = nat n_in,
                          flat = linmap_loop average n_out (nat n_in) idcs 0
                                   (replicate (n_out * nat n_in) 0)\<rparr>)"

text \<open>
  \<^verbatim>\<open>np.array(rows)\<close> of a list of one-dimensional index arrays: a two-dimensional
  array when the rows are equally long, an error otherwise. (Of no rows at all the
  library makes an empty array, which has no element either.)
\<close>

definition np_array :: "nat list list \<Rightarrow> error + nat ndarray" where
  "np_array rs =
     (if rs = [] then Inr \<lparr>shape0 = 0, shape1 = 0, flat = []\<rparr>
      else if list_all (\<lambda>r. length r = length (hd rs)) rs
      then Inr \<lparr>shape0 = length rs, shape1 = length (hd rs), flat = concat rs\<rparr>
      else Inl ValueError)"

text \<open>
  \<^verbatim>\<open>SparseReduce.sum_from_unique\<close>. \<^verbatim>\<open>np.unique\<close> returns the distinct values in
  ascending order, with their counts; \<^verbatim>\<open>np.argwhere(input == v).flatten()\<close> the
  positions of \<open>v\<close>; \<^verbatim>\<open>np.argsort\<close> of the array library is a stable sort.
\<close>

definition sum_from_unique :: "real list \<Rightarrow> bool \<Rightarrow> error + (real list \<times> nat list \<times> reduce)" where
  "sum_from_unique input mean =
     (let un = sort (remdups input);
          cts = map (count_list input) un;
          un_idx = map (\<lambda>v. filter (\<lambda>k. input ! k = v) [0..<length input]) un;
          l_arr = map length un_idx;
          argsort = sort_key (\<lambda>i. l_arr ! i) [0..<length l_arr];
          un_sorted = map (\<lambda>i. un ! i) argsort;
          cts_sorted = map (\<lambda>i. cts ! i) argsort;
          un_idx_sorted = map (\<lambda>i. un_idx ! i) argsort;
          l_sorted = map (\<lambda>i. l_arr ! i) argsort;
          change = 0 # map Suc (filter (\<lambda>k. l_sorted ! k \<noteq> l_sorted ! Suc k)
                                  [0..<length l_sorted - 1]) @ [length l_arr]
      in case collect (map (\<lambda>i. np_array (map (\<lambda>j. un_idx_sorted ! j)
                                              [change ! i..<change ! Suc i]))
                           [0..<length change - 1]) of
           Inl e \<Rightarrow> Inl e
         | Inr el \<Rightarrow>
             (case SparseReduce_post_init el mean None of
                Inl e \<Rightarrow> Inl e
              | Inr sr \<Rightarrow> Inr (un_sorted, cts_sorted, sr)))"

subsection \<open>Reductions of the module that is not among the sources\<close>

text \<open>
  Modelled from the spec: \<open>LinearReduce\<close> is defined in the module \<^verbatim>\<open>.base\<close>, which is
  not among the sources. The specification: ``application is literal left
  matrix-multiplication by the stored matrix; \<open>new_len\<close> is the matrix's row count'', and
  \<open>linmap\<close> ``returns that matrix given an input shape''.
\<close>

definition LinearReduce_matmul :: "real ndarray \<Rightarrow> real ndarray \<Rightarrow> error + real ndarray" where
  "LinearReduce_matmul linear_map inp = matmul linear_map inp"

definition LinearReduce_linmap :: "real ndarray \<Rightarrow> nat \<times> nat \<Rightarrow> int \<Rightarrow> error + real ndarray" where
  "LinearReduce_linmap linear_map inp_shape axis = Inr linear_map"

text \<open>
  Modelled from the spec: \<open>Sum\<close> and \<open>Mean\<close> are not among the sources; the
  specification has them fold all rows into one.
\<close>

definition fold_rows :: "bool \<Rightarrow> real ndarray \<Rightarrow> real ndarray" where
  "fold_rows average inp = of_rows (shape1 inp) [reduce_axis average (shape1 inp) (rows inp)]"

text \<open>
  The application operator on any reduction. The three classes of
  \<^verbatim>\<open>repetitions.py\<close> are dispatched to their own methods.

  Modelled from the spec: the cases of \<open>Identity\<close>, \<open>LinearReduce\<close>, \<open>ChainedReduce\<close>,
  \<open>Sum\<close> and \<open>Mean\<close>, whose methods are not among the sources. The specification:
  applying a reduction to another reduction yields a \<open>ChainedReduce\<close>, and
  ``\<open>ChainedReduce([A, B]).apply(M) == A.apply(B.apply(M))\<close>''.
\<close>

fun reduce_matmul :: "reduce \<Rightarrow> operand \<Rightarrow> error + operand" where
  "reduce_matmul (Repeat tms) inp = Repeat_matmul tms inp"
| "reduce_matmul (TileView result_len) inp = TileView_matmul result_len inp"
| "reduce_matmul (SparseReduce idcs average max_idx) inp =
     SparseReduce_matmul idcs average max_idx inp"
| "reduce_matmul (ChainedReduce rs) (Arr a) =
     foldr (\<lambda>r acc. case acc of Inl e \<Rightarrow> Inl e | Inr x \<Rightarrow> reduce_matmul r x) rs (Inr (Arr a))"
| "reduce_matmul Identity (Arr a) = Inr (Arr a)"
| "reduce_matmul (LinearReduce linear_map) (Arr a) =
     map_sum id Arr (LinearReduce_matmul linear_map a)"
| "reduce_matmul Sum (Arr a) = Inr (Arr (fold_rows False a))"
| "reduce_matmul Mean (Arr a) = Inr (Arr (fold_rows True a))"
| "reduce_matmul r (Red r') = Inr (Red (ChainedReduce [r, r']))"

text \<open>
  \<open>new_len\<close> on any reduction; again the three classes of \<^verbatim>\<open>repetitions.py\<close> are
  dispatched to their own methods.

  Modelled from the spec: the other cases, after ``\<open>new_len(n)\<close> must equal the row count
  actually produced by applying the reduction to any matrix with \<open>n\<close> rows''.
\<close>

fun new_len :: "reduce \<Rightarrow> int \<Rightarrow> error + int" where
  "new_len Identity original_len = Inr original_len"
| "new_len (Repeat tms) original_len = Inr (Repeat_new_len tms original_len)"
| "new_len (TileView result_len) original_len = Inr (TileView_new_len result_len original_len)"
| "new_len (SparseReduce idcs average max_idx) original_len =
     SparseReduce_new_len idcs max_idx original_len"
| "new_len (LinearReduce linear_map) original_len = Inr (int (shape0 linear_map))"
| "new_len (ChainedReduce rs) original_len =
     foldr (\<lambda>r acc. case acc of Inl e \<Rightarrow> Inl e | Inr n \<Rightarrow> new_len r n) rs (Inr original_len)"
| "new_len Sum original_len = Inr 1"
| "new_len Mean original_len = Inr 1"

text \<open>
  Modelled from the spec: \<^verbatim>\<open>RkhsVec.size\<close> calls \<open>final_len\<close> of its reduction, a method
  that is not among the sources. The specification: ``\<open>size\<close> = reduction's output length
  given inspection-point count''.
\<close>

definition final_len :: "reduce \<Rightarrow> int \<Rightarrow> error + int" where
  "final_len r original_len = new_len r original_len"

section \<open>RKHS vectors\<close>

text \<open>
  \<^verbatim>\<open>gpjax/rkhs/vector.py\<close>. An \<open>RkhsVec\<close> holds its inspection points (an array of
  atoms or another vector), a kernel, a pending reduction and the orientation flag
  \<open>transpose\<close>. Kernels are values of a type \<open>'k\<close> compared by equality; the
  cross-covariance of the kernel module is a parameter of the functions that use it.
  The methods are modelled on objects built as the dataclass declarations describe them.
\<close>

datatype 'k pts = Atoms "real ndarray" | Nested "'k rkhs_vec"
and 'k rkhs_vec =
  RkhsVec (insp_pts: "'k pts") (vec_k: 'k) (vec_reduce: reduce) (vec_transpose: bool)

definition T :: "'k rkhs_vec \<Rightarrow> 'k rkhs_vec" where
  "T v = RkhsVec (insp_pts v) (vec_k v) (vec_reduce v) (\<not> vec_transpose v)"

definition is_colvec :: "'k rkhs_vec \<Rightarrow> bool" where
  "is_colvec v = (\<not> vec_transpose v)"

definition is_rowvec :: "'k rkhs_vec \<Rightarrow> bool" where
  "is_rowvec v = vec_transpose v"

text \<open>Python's \<^verbatim>\<open>len\<close> refuses a negative result of \<^verbatim>\<open>__len__\<close>.\<close>

definition py_len :: "error + int \<Rightarrow> error + int" where
  "py_len r = (case r of Inl e \<Rightarrow> Inl e | Inr n \<Rightarrow> if n < 0 then Inl ValueError else Inr n)"

text \<open>
  \<^verbatim>\<open>size\<close> is \<^verbatim>\<open>self.reduce.final_len(len(self.insp_pts))\<close>, and \<^verbatim>\<open>__len__\<close> is 1 for
  a row vector and \<open>size\<close> for a column vector.
\<close>

fun len_pts :: "'k pts \<Rightarrow> error + int"
  and RkhsVec_size :: "'k rkhs_vec \<Rightarrow> error + int" where
  "len_pts (Atoms a) = Inr (int (shape0 a))"
| "len_pts (Nested v) = py_len (if vec_transpose v then Inr 1 else RkhsVec_size v)"
| "RkhsVec_size (RkhsVec p k r t) =
     (case len_pts p of Inl e \<Rightarrow> Inl e | Inr n \<Rightarrow> final_len r n)"

definition RkhsVec_len :: "'k rkhs_vec \<Rightarrow> error + int" where
  "RkhsVec_len v = py_len (if vec_transpose v then Inr 1 else RkhsVec_size v)"

definition RkhsVec_shape :: "'k rkhs_vec \<Rightarrow> error + (int \<times> int)" where
  "RkhsVec_shape v =
     (case RkhsVec_size v of
        Inl e \<Rightarrow> Inl e
      | Inr n \<Rightarrow> if vec_transpose v then Inr (1, n) else Inr (n, 1))"

subsection \<open>CombinationVec\<close>

datatype operator = Add | Multiply

text \<open>
  A \<open>CombinationVec\<close> after construction: its members, operator, reduction and
  orientation, and the length \<^verbatim>\<open>self.__len\<close> that \<^verbatim>\<open>__post_init__\<close> stores.
\<close>

record 'k combination_vec =
  rkhs_vecs :: "'k rkhs_vec list"
  operator :: operator
  comb_reduce :: reduce
  comb_transpose :: bool
  stored_len :: int

text \<open>The loop of \<^verbatim>\<open>__post_init__\<close> over the members.\<close>

fun check_lens :: "int \<Rightarrow> 'k rkhs_vec list \<Rightarrow> error + unit" where
  "check_lens orig_len [] = Inr ()"
| "check_lens orig_len (v # vs) =
     (case RkhsVec_len v of
        Inl e \<Rightarrow> Inl e
      | Inr n \<Rightarrow> if n \<noteq> orig_len then Inl ValueError else check_lens orig_len vs)"

definition CombinationVec_post_init ::
  "'k rkhs_vec list \<Rightarrow> operator \<Rightarrow> reduce \<Rightarrow> bool \<Rightarrow> error + 'k combination_vec" where
  "CombinationVec_post_init vs opr r t =
     (case vs of
        [] \<Rightarrow> Inl IndexError
      | v # _ \<Rightarrow>
          (case RkhsVec_len v of
             Inl e \<Rightarrow> Inl e
           | Inr orig_len \<Rightarrow>
               (case check_lens orig_len vs of
                  Inl e \<Rightarrow> Inl e
                | Inr _ \<Rightarrow>
                    (case new_len r orig_len of
                       Inl e \<Rightarrow> Inl e
                     | Inr n \<Rightarrow>
                         Inr \<lparr>rkhs_vecs = vs, operator = opr, comb_reduce = r,
                              comb_transpose = t, stored_len = n\<rparr>))))"

text \<open>
  \<^verbatim>\<open>jnp.concatenate\<close> along the first axis: it raises on an empty list and on arrays
  that disagree in their number of columns.
\<close>

definition np_concatenate :: "'a ndarray list \<Rightarrow> error + 'a ndarray" where
  "np_concatenate as =
     (if as = [] then Inl ValueError
      else if list_all (\<lambda>a. shape1 a = shape1 (hd as)) as
      then Inr \<lparr>shape0 = sum_list (map shape0 as), shape1 = shape1 (hd as),
                flat = concat (map flat as)\<rparr>
      else Inl ValueError)"

text \<open>Only arrays can be concatenated: a member whose points are a vector makes it raise.\<close>

fun atoms_of :: "'k pts \<Rightarrow> error + real ndarray" where
  "atoms_of (Atoms a) = Inr a"
| "atoms_of (Nested v) = Inl TypeError"

definition CombinationVec_insp_pts :: "'k combination_vec \<Rightarrow> error + real ndarray" where
  "CombinationVec_insp_pts c =
     (case collect (map (\<lambda>v. atoms_of (insp_pts v)) (rkhs_vecs c)) of
        Inl e \<Rightarrow> Inl e
      | Inr as \<Rightarrow> np_concatenate as)"

definition CombinationVec_size :: "'k combination_vec \<Rightarrow> int" where
  "CombinationVec_size c = stored_len c"

subsection \<open>The matrix product of two vectors\<close>

text \<open>\<^verbatim>\<open>.T\<close> of an array.\<close>

definition transpose_array :: "'a ndarray \<Rightarrow> 'a ndarray" where
  "transpose_array a =
     of_rows (shape0 a)
       (map (\<lambda>j. map (\<lambda>i. flat a ! (i * shape1 a + j)) [0..<shape0 a]) [0..<shape1 a])"

text \<open>
  \<^verbatim>\<open>__pairwise_dot__\<close>; \<open>cc\<close> stands for \<^verbatim>\<open>cross_covariance\<close> of the kernel module.
\<close>

definition pairwise_dot ::
  "('k \<Rightarrow> 'k pts \<Rightarrow> 'k pts \<Rightarrow> error + real ndarray) \<Rightarrow> 'k rkhs_vec \<Rightarrow> 'k rkhs_vec
     \<Rightarrow> error + real ndarray" where
  "pairwise_dot cc self other =
     (if vec_k self \<noteq> vec_k other then Inl TypeError
      else case cc (vec_k self) (insp_pts self) (insp_pts other) of
             Inl e \<Rightarrow> Inl e
           | Inr raw_gram \<Rightarrow>
               (case reduce_matmul (vec_reduce other) (Arr (transpose_array raw_gram)) of
                  Inl e \<Rightarrow> Inl e
                | Inr (Red r) \<Rightarrow> Inl TypeError
                | Inr (Arr g) \<Rightarrow>
                    (case reduce_matmul (vec_reduce self) (Arr (transpose_array g)) of
                       Inl e \<Rightarrow> Inl e
                     | Inr (Red r) \<Rightarrow> Inl TypeError
                     | Inr (Arr res) \<Rightarrow> Inr res)))"

text \<open>
  \<^verbatim>\<open>__tensor_prod__\<close>: a product vector over the two operands with a \<open>Sum\<close> reduction.
\<close>

definition tensor_prod :: "'k rkhs_vec \<Rightarrow> 'k rkhs_vec \<Rightarrow> error + 'k combination_vec" where
  "tensor_prod self other =
     (case RkhsVec_size self of
        Inl e \<Rightarrow> Inl e
      | Inr n \<Rightarrow>
          (case RkhsVec_size other of
             Inl e \<Rightarrow> Inl e
           | Inr m \<Rightarrow>
               if n \<noteq> m then Inl ValueError
               else CombinationVec_post_init [self, other] Multiply Sum False))"

datatype 'k product = Gram "real ndarray" | Vec "'k combination_vec"

definition RkhsVec_matmul ::
  "('k \<Rightarrow> 'k pts \<Rightarrow> 'k pts \<Rightarrow> error + real ndarray) \<Rightarrow> 'k rkhs_vec \<Rightarrow> 'k rkhs_vec
     \<Rightarrow> error + 'k product" where
  "RkhsVec_matmul cc self other =
     (if is_rowvec self = is_rowvec other then Inl ValueError
      else if is_rowvec self \<and> is_colvec other then map_sum id Gram (pairwise_dot cc self other)
      else if is_colvec self \<and> is_rowvec other then map_sum id Vec (tensor_prod self other)
      else Inl ValueError)"

subsection \<open>Notions used in the proofs\<close>

text \<open>
  The index groups of a \<open>SparseReduce\<close> in output order (one group per row of every
  block), the row of the linear map that belongs to a group, and the output row that
  application computes from a group.
\<close>

definition groups :: "nat ndarray list \<Rightarrow> nat list list" where
  "groups idcs = concat (map rows idcs)"

definition lin_row :: "bool \<Rightarrow> nat \<Rightarrow> nat list \<Rightarrow> real list" where
  "lin_row average n grp =
     map (\<lambda>k. if k \<in> set grp then (if average then 1 / real (length grp) else 1) else 0) [0..<n]"

definition red_row :: "bool \<Rightarrow> real ndarray \<Rightarrow> nat list \<Rightarrow> real list" where
  "red_row average M grp = reduce_axis average (shape1 M) (map (row M) grp)"

text \<open>
  For \<open>sum_from_unique\<close>: the positions of a value in the input, the list \<open>change\<close>
  computed from the sorted multiplicities, and the lists of index rows that the loop
  over \<open>change\<close> turns into blocks.
\<close>

definition positions :: "real list \<Rightarrow> real \<Rightarrow> nat list" where
  "positions input v = filter (\<lambda>k. input ! k = v) [0..<length input]"

definition change_points :: "nat list \<Rightarrow> nat list" where
  "change_points ls =
     0 # map Suc (filter (\<lambda>k. ls ! k \<noteq> ls ! Suc k) [0..<length ls - 1]) @ [length ls]"

definition slices :: "'a list \<Rightarrow> nat list \<Rightarrow> 'a list list" where
  "slices G ch = map (\<lambda>i. map (\<lambda>j. G ! j) [ch ! i..<ch ! Suc i]) [0..<length ch - 1]"

section \<open>Properties\<close>

subsection \<open>Rows of an array\<close>


lemma drop_concat_uniform:
  "\<forall>r\<in>set rs. length r = c \<Longrightarrow> drop (i * c) (concat rs) = concat (drop i rs)"
proof (induction rs arbitrary: i)
  case Nil
  then show ?case by simp
next
  case (Cons r rs)
  show ?case
  proof (cases i)
    case 0
    then show ?thesis by simp
  next
    case (Suc k)
    with Cons show ?thesis by simp
  qed
qed

lemma row_of_rows:
  assumes "\<forall>r\<in>set rs. length r = c" and "i < length rs"
  shows "row (of_rows c rs) i = rs ! i"
proof -
  have "drop i rs = rs ! i # drop (Suc i) rs"
    using assms(2) by (simp add: Cons_nth_drop_Suc)
  moreover have "length (rs ! i) = c"
    using assms by simp
  ultimately show ?thesis
    using assms(1) by (simp add: row_def of_rows_def drop_concat_uniform)
qed

lemma rows_of_rows:
  assumes "\<forall>r\<in>set rs. length r = c"
  shows "rows (of_rows c rs) = rs"
proof (rule nth_equalityI)
  show "length (rows (of_rows c rs)) = length rs"
    by (simp add: rows_def of_rows_def)
next
  fix i assume "i < length (rows (of_rows c rs))"
  then have i: "i < length rs" by (simp add: rows_def of_rows_def)
  then show "rows (of_rows c rs) ! i = rs ! i"
    using row_of_rows [OF assms i] by (simp add: rows_def of_rows_def)
qed

lemma length_row:
  assumes "wf_array A" and "i < shape0 A"
  shows "length (row A i) = shape1 A"
proof -
  have "Suc i * shape1 A \<le> shape0 A * shape1 A"
    using assms(2) by (intro mult_le_mono1) simp
  then show ?thesis
    using assms(1) by (simp add: row_def wf_array_def)
qed

lemma concat_take_drop_chunks:
  "length xs = n * c \<Longrightarrow> concat (map (\<lambda>i. take c (drop (i * c) xs)) [0..<n]) = xs"
proof (induction n arbitrary: xs)
  case 0
  then show ?case by simp
next
  case (Suc n)
  have len: "length (drop c xs) = n * c"
    using Suc.prems by simp
  have "map (\<lambda>i. take c (drop (i * c) xs)) [0..<Suc n] =
        take c xs # map (\<lambda>i. take c (drop (i * c) (drop c xs))) [0..<n]"
    by (simp add: map_upt_Suc add.commute del: upt_Suc)
  then show ?case
    using Suc.IH [OF len] by simp
qed

lemma of_rows_rows:
  "wf_array A \<Longrightarrow> of_rows (shape1 A) (rows A) = A"
  by (cases A) (simp add: of_rows_def rows_def row_def [abs_def] wf_array_def concat_take_drop_chunks)

lemma rows_uniform:
  "wf_array A \<Longrightarrow> \<forall>r\<in>set (rows A). length r = shape1 A"
  by (auto simp: rows_def length_row)

lemma nth_concat_map_replicate:
  "0 < t \<Longrightarrow> i < length rs * t \<Longrightarrow> concat (map (replicate t) rs) ! i = rs ! (i div t)"
proof (induction rs arbitrary: i)
  case Nil
  then show ?case by simp
next
  case (Cons r rs)
  show ?case
  proof (cases "i < t")
    case True
    then show ?thesis by (simp add: nth_append)
  next
    case False
    then have "i - t < length rs * t" and d: "i div t = Suc ((i - t) div t)"
      using Cons.prems by (simp_all add: le_div_geq)
    then show ?thesis
      using False Cons.IH [of "i - t"] Cons.prems(1) by (simp add: nth_append)
  qed
qed

lemma nth_concat_replicate:
  "i < n * length rs \<Longrightarrow> concat (replicate n rs) ! i = rs ! (i mod length rs)"
proof (induction n arbitrary: i)
  case 0
  then show ?case by simp
next
  case (Suc n)
  show ?case
  proof (cases "i < length rs")
    case True
    then show ?thesis by (simp add: nth_append)
  next
    case False
    then have "i - length rs < n * length rs"
      using Suc.prems by simp
    then show ?thesis
      using False Suc.IH [of "i - length rs"] by (simp add: nth_append le_mod_geq)
  qed
qed


subsection \<open>Repeat and TileView\<close>

lemma length_concat_uniform:
  "\<forall>r\<in>set rs. length r = c \<Longrightarrow> length (concat rs) = length rs * c"
  by (induction rs) simp_all

lemma wf_of_rows:
  "\<forall>r\<in>set rs. length r = c \<Longrightarrow> wf_array (of_rows c rs)"
  by (simp add: wf_array_def of_rows_def length_concat_uniform)

lemma np_repeat_rows:
  assumes "wf_array M" and "0 < tms"
  shows "\<exists>R. np_repeat M tms = Inr R \<and> wf_array R \<and> shape0 R = shape0 M * nat tms
           \<and> shape1 R = shape1 M \<and> (\<forall>i<shape0 R. row R i = row M (i div nat tms))"
proof -
  let ?rs = "concat (map (replicate (nat tms)) (rows M))"
  let ?R = "of_rows (shape1 M) ?rs"
  have uni: "\<forall>r\<in>set ?rs. length r = shape1 M"
    using rows_uniform [OF assms(1)] by auto
  have len: "length ?rs = shape0 M * nat tms"
    by (simp add: length_concat comp_def sum_list_triv rows_def)
  have "row ?R i = row M (i div nat tms)" if "i < shape0 M * nat tms" for i
  proof -
    have d: "i div nat tms < shape0 M"
      using that assms(2) by (simp add: less_mult_imp_div_less)
    have "row ?R i = ?rs ! i"
      using row_of_rows [OF uni] that len by simp
    also have "\<dots> = rows M ! (i div nat tms)"
      using nth_concat_map_replicate [of "nat tms" i "rows M"] that assms(2)
      by (simp add: rows_def)
    also have "\<dots> = row M (i div nat tms)"
      using d by (simp add: rows_def)
    finally show ?thesis .
  qed
  moreover have "wf_array ?R"
    using uni by (rule wf_of_rows)
  moreover have "np_repeat M tms = Inr ?R"
    using assms(2) by (simp add: np_repeat_def)
  ultimately show ?thesis
    using len by (auto simp: of_rows_def)
qed

lemma concat_replicate_concat:
  "concat (replicate n (concat rs)) = concat (concat (replicate n rs))"
  by (induction n) simp_all

lemma tile_view_rows:
  assumes "wf_array M" and "0 \<le> reps"
  shows "\<exists>R. tile_view M reps = Inr R \<and> wf_array R \<and> shape0 R = nat reps * shape0 M
           \<and> shape1 R = shape1 M \<and> flat R = concat (replicate (nat reps) (flat M))
           \<and> (\<forall>i<shape0 R. row R i = row M (i mod shape0 M))"
proof -
  let ?rs = "concat (replicate (nat reps) (rows M))"
  let ?R = "\<lparr>shape0 = nat reps * shape0 M, shape1 = shape1 M,
             flat = concat (replicate (nat reps) (flat M))\<rparr>"
  have uni: "\<forall>r\<in>set ?rs. length r = shape1 M"
    using rows_uniform [OF assms(1)] by auto
  have len: "length ?rs = nat reps * shape0 M"
    by (simp add: length_concat comp_def sum_list_replicate rows_def)
  have "flat M = concat (rows M)"
    using of_rows_rows [OF assms(1)] by (metis ndarray.select_convs(3) of_rows_def)
  then have "concat (replicate (nat reps) (flat M)) = concat ?rs"
    by (simp add: concat_replicate_concat)
  then have R: "?R = of_rows (shape1 M) ?rs"
    using len by (simp add: of_rows_def)
  have "row ?R i = row M (i mod shape0 M)" if "i < nat reps * shape0 M" for i
  proof -
    have pos: "0 < shape0 M"
      using that by (cases "shape0 M") simp_all
    have "row ?R i = ?rs ! i"
      unfolding R using row_of_rows [OF uni] that len by simp
    also have "\<dots> = rows M ! (i mod shape0 M)"
      using nth_concat_replicate [of i "nat reps" "rows M"] that by (simp add: rows_def)
    also have "\<dots> = row M (i mod shape0 M)"
      using pos by (simp add: rows_def)
    finally show ?thesis .
  qed
  moreover have "wf_array ?R"
    using assms(1) by (simp add: wf_array_def length_concat comp_def sum_list_replicate mult.assoc)
  moreover have "tile_view M reps = Inr ?R"
    using assms(2) by (simp add: tile_view_def)
  ultimately show ?thesis
    by auto
qed


subsection \<open>The row count that \<open>new_len\<close> announces\<close>

text \<open>
  C1. For every reduction and every matrix with \<open>n\<close> rows on which application
  succeeds, the result has exactly \<open>new_len(n)\<close> rows. \<^verbatim>\<open>SparseReduce.new_len\<close>
  returns the number of index blocks, \<^verbatim>\<open>len(self.idcs)\<close>, while
  \<^verbatim>\<open>SparseReduce.__matmul__\<close> emits one row for every row of every block. On the
  reduction \<open>r2\<close> of the method's own docstring (the blocks \<open>[[0, 1], [0, 2]]\<close> and
  \<open>[[0, 1, 2]]\<close>, averaging) and the 3 by 3 matrix of the docstring, construction infers
  \<open>max_idx = 2\<close>, application gives the three rows that the docstring shows, and
  \<open>new_len 3\<close> is 2.
\<close>

theorem SparseReduce_new_len_counts_blocks:
  "SparseReduce_post_init
     [\<lparr>shape0 = 2, shape1 = 2, flat = [0, 1, 0, 2]\<rparr>, \<lparr>shape0 = 1, shape1 = 3, flat = [0, 1, 2]\<rparr>]
     True None
   = Inr (SparseReduce
     [\<lparr>shape0 = 2, shape1 = 2, flat = [0, 1, 0, 2]\<rparr>, \<lparr>shape0 = 1, shape1 = 3, flat = [0, 1, 2]\<rparr>]
     True 2)
   \<and> SparseReduce_matmul
     [\<lparr>shape0 = 2, shape1 = 2, flat = [0, 1, 0, 2]\<rparr>, \<lparr>shape0 = 1, shape1 = 3, flat = [0, 1, 2]\<rparr>]
     True 2 (Arr \<lparr>shape0 = 3, shape1 = 3, flat = [1, 2, 3, 4, 5, 6, 7, 8, 9]\<rparr>)
   = Inr (Arr \<lparr>shape0 = 3, shape1 = 3, flat = [5 / 2, 7 / 2, 9 / 2, 4, 5, 6, 4, 5, 6]\<rparr>)
   \<and> SparseReduce_new_len
     [\<lparr>shape0 = 2, shape1 = 2, flat = [0, 1, 0, 2]\<rparr>, \<lparr>shape0 = 1, shape1 = 3, flat = [0, 1, 2]\<rparr>]
     2 3
   = Inr 2"
  by (simp add: SparseReduce_post_init_def SparseReduce_new_len_def reduce_block_def
      gather_rows_def reshape_groups_def reduce_axis_def mean_axis_def of_rows_def row_def
      upt_conv_Cons)

subsection \<open>Repeat\<close>

text \<open>
  C3, as the claim states it: \<open>Repeat(times)\<close> lays \<open>times\<close> full copies of the matrix
  back to back, output row \<open>i\<close> being input row \<open>i mod n\<close>. \<^verbatim>\<open>np.repeat\<close> repeats row
  by row: \<open>Repeat(2)\<close> turns the column \<open>[1, 2]\<close> into \<open>[1, 1, 2, 2]\<close>, whose row 1 is the
  input's row 0 and not its row \<open>1 mod 2\<close>.
\<close>

theorem Repeat_matmul_not_back_to_back:
  "Repeat_matmul 2 (Arr (column [1, 2]))
     = Inr (Arr \<lparr>shape0 = 4, shape1 = 1, flat = [1, 1, 2, 2]\<rparr>)
   \<and> row \<lparr>shape0 = 4, shape1 = 1, flat = [1, 1, 2, 2 :: real]\<rparr> 1 = [1]
   \<and> row (column [1, 2 :: real]) (1 mod 2) = [2]"
  by (simp add: np_repeat_def of_rows_def rows_def row_def column_def upt_conv_Cons
      numeral_2_eq_2)

text \<open>
  C3 (amended). For every matrix \<open>M\<close> with \<open>n\<close> rows and every valid \<open>times > 1\<close>,
  applying \<open>Repeat(times)\<close> to \<open>M\<close> succeeds, the output has \<open>n * times\<close> rows, which is
  \<open>new_len(n)\<close>, and as many columns as \<open>M\<close>, and output row \<open>i\<close> equals input row
  \<open>i div times\<close>: every row is repeated \<open>times\<close> times in place.
\<close>

theorem Repeat_matmul_repeats_rows:
  assumes "wf_array M" and "1 < tms"
  shows "\<exists>R. Repeat_matmul tms (Arr M) = Inr (Arr R)
           \<and> shape0 R = shape0 M * nat tms
           \<and> int (shape0 R) = Repeat_new_len tms (int (shape0 M))
           \<and> shape1 R = shape1 M
           \<and> (\<forall>i<shape0 R. row R i = row M (i div nat tms))"
proof -
  from assms obtain R where R: "np_repeat M tms = Inr R" "shape0 R = shape0 M * nat tms"
      "shape1 R = shape1 M" "\<forall>i<shape0 R. row R i = row M (i div nat tms)"
    using np_repeat_rows [of M tms] by auto
  have "int (shape0 R) = Repeat_new_len tms (int (shape0 M))"
    using R(2) assms(2) by (simp add: Repeat_new_len_def)
  with R show ?thesis by simp
qed

theorem Repeat_matmul_repeats_rows_witness:
  "wf_array \<lparr>shape0 = 2, shape1 = 2, flat = [1, 2, 3, 4 :: real]\<rparr> \<and> (1 :: int) < 3
   \<and> (\<exists>R. Repeat_matmul 3 (Arr \<lparr>shape0 = 2, shape1 = 2, flat = [1, 2, 3, 4]\<rparr>) = Inr (Arr R)
          \<and> shape0 R = 6 \<and> shape1 R = 2 \<and> row R 0 = [1, 2] \<and> row R 2 = [1, 2]
          \<and> row R 3 = [3, 4] \<and> row R 5 = [3, 4])"
proof -
  let ?M = "\<lparr>shape0 = 2, shape1 = 2, flat = [1, 2, 3, 4 :: real]\<rparr>"
  have wf: "wf_array ?M" by (simp add: wf_array_def)
  have t: "(1 :: int) < 3" by simp
  from Repeat_matmul_repeats_rows [OF wf t]
  obtain R where R: "Repeat_matmul 3 (Arr ?M) = Inr (Arr R)" "shape0 R = shape0 ?M * nat 3"
      "shape1 R = shape1 ?M" "\<forall>i<shape0 R. row R i = row ?M (i div nat 3)"
    by blast
  have "row R 0 = row ?M 0" "row R 2 = row ?M 0" "row R 3 = row ?M 1" "row R 5 = row ?M 1"
    using R(2,4) by simp_all
  moreover have "row ?M 0 = [1, 2]" "row ?M 1 = [3, 4]"
    by (simp_all add: row_def)
  ultimately show ?thesis
    using wf R(1,2,3) by simp
qed


subsection \<open>TileView\<close>

text \<open>
  C4, as the claim states it: when the row count \<open>n\<close> divides \<open>result_len\<close>,
  \<open>TileView(result_len)\<close> produces what \<open>Repeat\<close> with \<open>times = result_len / n\<close> produces.
  On the column \<open>[1, 2]\<close>, \<open>TileView(4)\<close> gives \<open>[1, 2, 1, 2]\<close> and \<open>Repeat(2)\<close> gives
  \<open>[1, 1, 2, 2]\<close>.
\<close>

theorem TileView_matmul_differs_from_Repeat:
  "TileView_matmul 4 (Arr (column [1, 2]))
     = Inr (Arr \<lparr>shape0 = 4, shape1 = 1, flat = [1, 2, 1, 2]\<rparr>)
   \<and> Repeat_matmul (4 div 2) (Arr (column [1, 2]))
     = Inr (Arr \<lparr>shape0 = 4, shape1 = 1, flat = [1, 1, 2, 2]\<rparr>)
   \<and> TileView_matmul 4 (Arr (column [1, 2])) \<noteq> Repeat_matmul (4 div 2) (Arr (column [1, 2]))"
  by (simp add: tile_view_def np_repeat_def of_rows_def rows_def row_def column_def
      upt_conv_Cons numeral_2_eq_2)

text \<open>
  C4 (amended). Applying \<open>TileView(result_len)\<close>, with a valid \<open>result_len > 1\<close>, to a
  matrix \<open>M\<close> whose row count \<open>n\<close> exactly divides \<open>result_len\<close> succeeds and produces the
  back-to-back concatenation of \<open>result_len / n\<close> full copies of \<open>M\<close>: the output has
  \<open>result_len\<close> rows, the columns of \<open>M\<close>, and output row \<open>i\<close> equals input row
  \<open>i mod n\<close> (which is not what \<open>Repeat\<close> produces). Application fails when
  \<open>result_len\<close> is not an exact multiple of \<open>n\<close>. The witness is the example of the
  claim: \<open>TileView(6)\<close> on \<open>[[1, 2, 3], [4, 5, 6]]\<close> yields three vertical repeats of the
  two rows in order; and \<open>TileView(6)\<close> fails on a matrix of four rows.
\<close>

theorem TileView_matmul_tiles:
  assumes "wf_array M" and "2 \<le> result_len"
  shows "(shape0 M \<noteq> 0 \<and> result_len mod int (shape0 M) = 0 \<longrightarrow>
            (\<exists>R. TileView_matmul result_len (Arr M) = Inr (Arr R)
                 \<and> int (shape0 R) = result_len \<and> shape1 R = shape1 M
                 \<and> flat R = concat (replicate (nat (result_len div int (shape0 M))) (flat M))
                 \<and> (\<forall>i<shape0 R. row R i = row M (i mod shape0 M))))
       \<and> (shape0 M = 0 \<or> result_len mod int (shape0 M) \<noteq> 0 \<longrightarrow>
            (\<exists>e. TileView_matmul result_len (Arr M) = Inl e))"
proof (intro conjI impI)
  assume div: "shape0 M \<noteq> 0 \<and> result_len mod int (shape0 M) = 0"
  let ?reps = "result_len div int (shape0 M)"
  have reps: "0 \<le> ?reps"
    using assms(2) by (simp add: div_int_pos_iff)
  from tile_view_rows [OF assms(1) reps]
  obtain R where R: "tile_view M ?reps = Inr R" "shape0 R = nat ?reps * shape0 M"
      "shape1 R = shape1 M" "flat R = concat (replicate (nat ?reps) (flat M))"
      "\<forall>i<shape0 R. row R i = row M (i mod shape0 M)"
    by blast
  have "int (shape0 R) = ?reps * int (shape0 M)"
    using R(2) reps by simp
  also have "\<dots> = result_len"
    using div by (simp add: mod_0_imp_dvd)
  finally have "int (shape0 R) = result_len" .
  with R div show "\<exists>R. TileView_matmul result_len (Arr M) = Inr (Arr R)
      \<and> int (shape0 R) = result_len \<and> shape1 R = shape1 M
      \<and> flat R = concat (replicate (nat ?reps) (flat M))
      \<and> (\<forall>i<shape0 R. row R i = row M (i mod shape0 M))"
    by simp
next
  assume "shape0 M = 0 \<or> result_len mod int (shape0 M) \<noteq> 0"
  then show "\<exists>e. TileView_matmul result_len (Arr M) = Inl e"
    by auto
qed

theorem TileView_matmul_tiles_witness:
  "TileView_matmul 6 (Arr \<lparr>shape0 = 2, shape1 = 3, flat = [1, 2, 3, 4, 5, 6]\<rparr>)
     = Inr (Arr \<lparr>shape0 = 6, shape1 = 3,
                 flat = [1, 2, 3, 4, 5, 6, 1, 2, 3, 4, 5, 6, 1, 2, 3, 4, 5, 6]\<rparr>)
   \<and> (\<exists>e. TileView_matmul 6 (Arr \<lparr>shape0 = 4, shape1 = 1, flat = [1, 2, 3, 4]\<rparr>) = Inl e)"
proof -
  let ?M = "\<lparr>shape0 = 2, shape1 = 3, flat = [1, 2, 3, 4, 5, 6 :: real]\<rparr>"
  let ?N = "\<lparr>shape0 = 4, shape1 = 1, flat = [1, 2, 3, 4 :: real]\<rparr>"
  have wfM: "wf_array ?M" and wfN: "wf_array ?N"
    by (simp_all add: wf_array_def)
  have six: "(2 :: int) \<le> 6" by simp
  from TileView_matmul_tiles [OF wfM six]
  obtain R where R: "TileView_matmul 6 (Arr ?M) = Inr (Arr R)" "int (shape0 R) = 6"
      "shape1 R = shape1 ?M" "flat R = concat (replicate (nat (6 div int (shape0 ?M))) (flat ?M))"
    by auto
  have "R = \<lparr>shape0 = 6, shape1 = 3,
             flat = [1, 2, 3, 4, 5, 6, 1, 2, 3, 4, 5, 6, 1, 2, 3, 4, 5, 6]\<rparr>"
    using R(2,3,4) by (cases R) (simp add: numeral_3_eq_3)
  moreover have "\<exists>e. TileView_matmul 6 (Arr ?N) = Inl e"
    using TileView_matmul_tiles [OF wfN six] by simp
  ultimately show ?thesis
    using R(1) by simp
qed

subsection \<open>Application to another reduction\<close>

text \<open>
  C5. Applying a reduction to another reduction yields a \<open>ChainedReduce\<close>, for every
  variant, \<open>SparseReduce\<close> included. \<^verbatim>\<open>Repeat.__matmul__\<close> and
  \<^verbatim>\<open>TileView.__matmul__\<close> start with that branch; \<^verbatim>\<open>SparseReduce.__matmul__\<close> has no
  such branch and treats its argument as an array. On \<open>SparseReduce([[[0, 1]]])\<close> applied
  to \<open>Repeat(2)\<close> it raises, where its two siblings return the chain.
\<close>

theorem SparseReduce_matmul_does_not_chain:
  "SparseReduce_matmul [\<lparr>shape0 = 1, shape1 = 2, flat = [0, 1]\<rparr>] True 1 (Red (Repeat 2))
     = Inl TypeError
   \<and> Repeat_matmul 3 (Red (Repeat 2)) = Inr (Red (ChainedReduce [Repeat 3, Repeat 2]))
   \<and> TileView_matmul 4 (Red (Repeat 2)) = Inr (Red (ChainedReduce [TileView 4, Repeat 2]))"
  by simp


subsection \<open>Results collected from a loop\<close>

lemma collect_Inr:
  assumes "\<forall>x\<in>set xs. \<exists>y. f x = Inr y"
  shows "\<exists>ys. collect (map f xs) = Inr ys \<and> length ys = length xs"
  using assms
proof (induction xs)
  case Nil
  then show ?case by simp
next
  case (Cons x xs)
  then obtain y ys where "f x = Inr y" "collect (map f xs) = Inr ys" "length ys = length xs"
    by auto
  then show ?case by simp
qed

subsection \<open>The guards of SparseReduce\<close>

lemma reduce_block_succeeds:
  assumes "0 < shape0 M" and "0 < shape1 M"
  shows "\<exists>rs. reduce_block average M b = Inr rs"
  using assms by (simp add: reduce_block_def gather_rows_def reshape_groups_def)

text \<open>
  C10, as the claim states it: applying a \<open>SparseReduce\<close> accepts any matrix with
  \<open>max_idx + 1\<close> or more rows. A \<open>SparseReduce\<close> without index blocks and with
  \<open>max_idx = 0\<close> passes the guard on a matrix of one row, collects no block result, and
  \<^verbatim>\<open>np.concatenate\<close> raises on the empty list.
\<close>

theorem SparseReduce_matmul_rejects_without_blocks:
  "(0 :: int) + 1 \<le> int (shape0 (column [1 :: real]))
   \<and> SparseReduce_matmul [] True 0 (Arr (column [1])) = Inl ValueError"
  by (simp add: column_def)

text \<open>
  C10 (amended). \<open>SparseReduce.linmap\<close> raises whenever the given input shape along the
  reduced axis is not exactly \<open>max_idx + 1\<close>. Applying the same \<open>SparseReduce\<close> raises on
  a matrix with fewer than \<open>max_idx + 1\<close> rows, and accepts every matrix with
  \<open>max_idx + 1\<close> or more rows and at least one column, provided the reduction has at
  least one index block and \<open>max_idx\<close> is not negative. So on every such matrix with more
  than \<open>max_idx + 1\<close> rows application succeeds while \<open>linmap\<close> of its shape raises:
  the precondition of \<open>linmap\<close> is strictly stronger.
\<close>

theorem SparseReduce_linmap_stricter_than_matmul:
  "(shape_at inp_shape axis = Inr n \<and> int n \<noteq> max_idx + 1 \<longrightarrow>
      SparseReduce_linmap idcs average max_idx inp_shape axis = Inl ValueError)
   \<and> (int (shape0 M) < max_idx + 1 \<longrightarrow>
      SparseReduce_matmul idcs average max_idx (Arr M) = Inl ValueError)
   \<and> (idcs \<noteq> [] \<and> 0 \<le> max_idx \<and> 0 < shape1 M \<and> max_idx + 1 \<le> int (shape0 M) \<longrightarrow>
      (\<exists>R. SparseReduce_matmul idcs average max_idx (Arr M) = Inr (Arr R)))
   \<and> (idcs \<noteq> [] \<and> 0 \<le> max_idx \<and> 0 < shape1 M \<and> max_idx + 1 < int (shape0 M) \<longrightarrow>
      (\<exists>R. SparseReduce_matmul idcs average max_idx (Arr M) = Inr (Arr R))
      \<and> SparseReduce_linmap idcs average max_idx (shape0 M, shape1 M) 0 = Inl ValueError)"
proof -
  have accepts: "\<exists>R. SparseReduce_matmul idcs average max_idx (Arr M) = Inr (Arr R)"
    if "idcs \<noteq> []" "0 \<le> max_idx" "0 < shape1 M" "max_idx + 1 \<le> int (shape0 M)"
  proof -
    have "0 < shape0 M"
      using that(2,4) by simp
    then have "\<forall>b\<in>set idcs. \<exists>rs. reduce_block average M b = Inr rs"
      using that(3) by (simp add: reduce_block_succeeds)
    then obtain rval where "collect (map (reduce_block average M) idcs) = Inr rval"
        "length rval = length idcs"
      using collect_Inr by blast
    moreover from this that(1) have "rval \<noteq> []"
      by auto
    ultimately show ?thesis
      using that(4) by simp
  qed
  have "SparseReduce_linmap idcs average max_idx inp_shape axis = Inl ValueError"
    if "shape_at inp_shape axis = Inr n" "int n \<noteq> max_idx + 1"
    using that by (simp add: SparseReduce_linmap_def)
  moreover have "SparseReduce_linmap idcs average max_idx (shape0 M, shape1 M) 0 = Inl ValueError"
    if "max_idx + 1 < int (shape0 M)"
    using that by (simp add: SparseReduce_linmap_def shape_at_def)
  moreover have "SparseReduce_matmul idcs average max_idx (Arr M) = Inl ValueError"
    if "int (shape0 M) < max_idx + 1"
    using that by simp
  ultimately show ?thesis
    using accepts by simp
qed

theorem SparseReduce_linmap_stricter_than_matmul_witness:
  "SparseReduce_linmap [\<lparr>shape0 = 1, shape1 = 2, flat = [0, 1]\<rparr>] True 1 (3, 1) 0 = Inl ValueError
   \<and> SparseReduce_matmul [\<lparr>shape0 = 1, shape1 = 2, flat = [0, 1]\<rparr>] True 1 (Arr (column [5]))
       = Inl ValueError
   \<and> (\<exists>R. SparseReduce_matmul [\<lparr>shape0 = 1, shape1 = 2, flat = [0, 1]\<rparr>] True 1
             (Arr (column [5, 7])) = Inr (Arr R))
   \<and> (\<exists>R. SparseReduce_matmul [\<lparr>shape0 = 1, shape1 = 2, flat = [0, 1]\<rparr>] True 1
             (Arr (column [5, 7, 9])) = Inr (Arr R))"
proof -
  let ?idcs = "[\<lparr>shape0 = 1, shape1 = 2, flat = [0, 1 :: nat]\<rparr>]"
  have "SparseReduce_linmap ?idcs True 1 (3, 1) 0 = Inl ValueError"
    using SparseReduce_linmap_stricter_than_matmul
        [of "(3, 1)" 0 3 1 ?idcs True "column [5, 7, 9]"]
    by (simp add: shape_at_def column_def)
  moreover have "SparseReduce_matmul ?idcs True 1 (Arr (column [5])) = Inl ValueError"
    using SparseReduce_linmap_stricter_than_matmul
        [of "(3, 1)" 0 3 1 ?idcs True "column [5]"]
    by (simp add: column_def)
  moreover have "\<exists>R. SparseReduce_matmul ?idcs True 1 (Arr (column [5, 7])) = Inr (Arr R)"
    using SparseReduce_linmap_stricter_than_matmul
        [of "(3, 1)" 0 3 1 ?idcs True "column [5, 7]"]
    by (simp add: column_def)
  moreover have "\<exists>R. SparseReduce_matmul ?idcs True 1 (Arr (column [5, 7, 9])) = Inr (Arr R)"
    using SparseReduce_linmap_stricter_than_matmul
        [of "(3, 1)" 0 3 1 ?idcs True "column [5, 7, 9]"]
    by (simp add: column_def)
  ultimately show ?thesis by blast
qed


subsection \<open>The matrix product of RKHS vectors\<close>

text \<open>
  C9. The matrix product of two RKHS vectors raises whenever both operands have the same
  orientation (row with row, column with column), and the inner product (row with
  column) raises whenever the kernels are not equal. The outcome is then the error and
  no result of any shape; this holds whatever the cross-covariance \<open>cc\<close> would compute.
\<close>

theorem RkhsVec_matmul_raises:
  "(is_rowvec v = is_rowvec w \<longrightarrow> RkhsVec_matmul cc v w = Inl ValueError)
   \<and> (is_rowvec v \<and> is_colvec w \<and> vec_k v \<noteq> vec_k w \<longrightarrow>
        pairwise_dot cc v w = Inl TypeError \<and> RkhsVec_matmul cc v w = Inl TypeError)"
  by (simp add: RkhsVec_matmul_def pairwise_dot_def is_rowvec_def is_colvec_def)

theorem RkhsVec_matmul_raises_witness:
  "RkhsVec_matmul (\<lambda>k p q. Inr (zeros 2 2))
     (RkhsVec (Atoms (column [1, 2])) (0 :: nat) Identity False)
     (RkhsVec (Atoms (column [3, 4])) 0 Identity False) = Inl ValueError
   \<and> RkhsVec_matmul (\<lambda>k p q. Inr (zeros 2 2))
     (RkhsVec (Atoms (column [1, 2])) (0 :: nat) Identity True)
     (RkhsVec (Atoms (column [3, 4])) 0 Identity True) = Inl ValueError
   \<and> RkhsVec_matmul (\<lambda>k p q. Inr (zeros 2 2))
     (T (RkhsVec (Atoms (column [1, 2])) (0 :: nat) Identity False))
     (RkhsVec (Atoms (column [3, 4])) 1 Identity False) = Inl TypeError"
proof -
  let ?cc = "\<lambda>(k :: nat) (p :: nat pts) (q :: nat pts). Inr (zeros 2 2) :: error + real ndarray"
  let ?a = "Atoms (column [1, 2]) :: nat pts" and ?b = "Atoms (column [3, 4]) :: nat pts"
  have "RkhsVec_matmul ?cc (RkhsVec ?a 0 Identity False) (RkhsVec ?b 0 Identity False)
      = Inl ValueError"
    using RkhsVec_matmul_raises
      [of "RkhsVec ?a 0 Identity False" "RkhsVec ?b 0 Identity False" ?cc]
    by (simp add: is_rowvec_def)
  moreover have "RkhsVec_matmul ?cc (RkhsVec ?a 0 Identity True) (RkhsVec ?b 0 Identity True)
      = Inl ValueError"
    using RkhsVec_matmul_raises
      [of "RkhsVec ?a 0 Identity True" "RkhsVec ?b 0 Identity True" ?cc]
    by (simp add: is_rowvec_def)
  moreover have "RkhsVec_matmul ?cc (T (RkhsVec ?a 0 Identity False)) (RkhsVec ?b 1 Identity False)
      = Inl TypeError"
    using RkhsVec_matmul_raises
      [of "T (RkhsVec ?a 0 Identity False)" "RkhsVec ?b 1 Identity False" ?cc]
    by (simp add: is_rowvec_def is_colvec_def T_def)
  ultimately show ?thesis by simp
qed


subsection \<open>CombinationVec\<close>

lemma check_lens_Inr:
  "check_lens n vs = Inr u \<Longrightarrow> list_all (\<lambda>v. RkhsVec_len v = Inr n) vs"
proof (induction vs)
  case Nil
  then show ?case by simp
next
  case (Cons v vs)
  then show ?case
    by (cases "RkhsVec_len v") (simp_all split: if_splits)
qed

lemma atoms_of_Inr:
  "atoms_of p = Inr a \<longleftrightarrow> p = Atoms a"
  by (cases p) auto

lemma collect_atoms:
  "collect (map (\<lambda>v. atoms_of (insp_pts v)) vs) = Inr as \<Longrightarrow> map insp_pts vs = map Atoms as"
proof (induction vs arbitrary: as)
  case Nil
  then show ?case by simp
next
  case (Cons v vs)
  show ?case
  proof (cases "atoms_of (insp_pts v)")
    case (Inl e)
    with Cons.prems show ?thesis by simp
  next
    case a: (Inr a)
    show ?thesis
    proof (cases "collect (map (\<lambda>v. atoms_of (insp_pts v)) vs)")
      case (Inl e)
      with a Cons.prems show ?thesis by simp
    next
      case (Inr bs)
      with a Cons.prems have "as = a # bs" by simp
      moreover have "map insp_pts vs = map Atoms bs"
        using Cons.IH [OF Inr] .
      moreover have "insp_pts v = Atoms a"
        using a by (simp add: atoms_of_Inr)
      ultimately show ?thesis by simp
    qed
  qed
qed

text \<open>
  C8, as the claim states it: the length of a \<open>CombinationVec\<close> is the output length of
  its reduction applied to the count of the concatenated inspection points. Two column
  vectors of three atoms each, combined under \<open>Repeat(2)\<close>: the concatenated inspection
  points have six rows, for which \<open>Repeat(2)\<close> announces twelve, but the combination's
  size is six, \<open>new_len\<close> of the members' common length three. The same happens with row
  vectors, whose length is one.
\<close>

theorem CombinationVec_size_not_of_concatenation:
  "CombinationVec_post_init
     [RkhsVec (Atoms (column [1, 2, 3])) (0 :: nat) Identity False,
      RkhsVec (Atoms (column [4, 5, 6])) 0 Identity False] Multiply (Repeat 2) False
   = Inr \<lparr>rkhs_vecs = [RkhsVec (Atoms (column [1, 2, 3])) 0 Identity False,
                       RkhsVec (Atoms (column [4, 5, 6])) 0 Identity False],
          operator = Multiply, comb_reduce = Repeat 2, comb_transpose = False, stored_len = 6\<rparr>
   \<and> CombinationVec_insp_pts
      \<lparr>rkhs_vecs = [RkhsVec (Atoms (column [1, 2, 3])) (0 :: nat) Identity False,
                   RkhsVec (Atoms (column [4, 5, 6])) 0 Identity False],
       operator = Multiply, comb_reduce = Repeat 2, comb_transpose = False, stored_len = 6\<rparr>
   = Inr \<lparr>shape0 = 6, shape1 = 1, flat = [1, 2, 3, 4, 5, 6]\<rparr>
   \<and> CombinationVec_size
      \<lparr>rkhs_vecs = [RkhsVec (Atoms (column [1, 2, 3])) (0 :: nat) Identity False,
                   RkhsVec (Atoms (column [4, 5, 6])) 0 Identity False],
       operator = Multiply, comb_reduce = Repeat 2, comb_transpose = False, stored_len = 6\<rparr>
   = 6
   \<and> new_len (Repeat 2) 6 = Inr 12
   \<and> CombinationVec_post_init
     [RkhsVec (Atoms (column [1, 2, 3])) (0 :: nat) Identity True,
      RkhsVec (Atoms (column [4, 5, 6])) 0 Identity True] Multiply (Repeat 2) False
   = Inr \<lparr>rkhs_vecs = [RkhsVec (Atoms (column [1, 2, 3])) 0 Identity True,
                       RkhsVec (Atoms (column [4, 5, 6])) 0 Identity True],
          operator = Multiply, comb_reduce = Repeat 2, comb_transpose = False, stored_len = 2\<rparr>"
  by (simp add: CombinationVec_post_init_def CombinationVec_insp_pts_def CombinationVec_size_def
      RkhsVec_len_def py_len_def final_len_def Repeat_new_len_def np_concatenate_def column_def)

text \<open>
  C8 (amended). Constructing a \<open>CombinationVec\<close> fails when its member RKHS vectors do not
  all share the same length (the \<^verbatim>\<open>len\<close> of a vector: its size for a column vector, one
  for a row vector): when construction succeeds there is at least one member and every
  member has the length of the first. The combination then keeps its members; its
  inspection points, when they can be computed, are the concatenation of the members'
  inspection points, all of them arrays; and its length (size) equals its reduction's
  \<open>new_len\<close> applied to the members' common length, not to the count of the concatenated
  inspection points.
\<close>

theorem CombinationVec_post_init_lengths:
  assumes "CombinationVec_post_init vs opr r t = Inr c"
  shows "\<exists>n. vs \<noteq> [] \<and> RkhsVec_len (hd vs) = Inr n
           \<and> list_all (\<lambda>v. RkhsVec_len v = Inr n) vs
           \<and> rkhs_vecs c = vs
           \<and> new_len r n = Inr (CombinationVec_size c)
           \<and> (\<forall>A. CombinationVec_insp_pts c = Inr A \<longrightarrow>
                 (\<exists>as. map insp_pts vs = map Atoms as
                    \<and> shape0 A = sum_list (map shape0 as)
                    \<and> flat A = concat (map flat as)))"
proof -
  from assms obtain v vs' where vs: "vs = v # vs'"
    by (cases vs) (simp_all add: CombinationVec_post_init_def)
  from assms vs obtain n where n: "RkhsVec_len v = Inr n"
    by (cases "RkhsVec_len v") (simp_all add: CombinationVec_post_init_def)
  from assms vs n obtain u where u: "check_lens n vs = Inr u"
    by (cases "check_lens n vs") (simp_all add: CombinationVec_post_init_def)
  from assms vs n u obtain k where k: "new_len r n = Inr k"
    by (cases "new_len r n") (simp_all add: CombinationVec_post_init_def)
  have c: "c = \<lparr>rkhs_vecs = vs, operator = opr, comb_reduce = r, comb_transpose = t,
      stored_len = k\<rparr>"
    using assms vs n u k by (simp add: CombinationVec_post_init_def)
  have pts: "\<exists>as. map insp_pts vs = map Atoms as \<and> shape0 A = sum_list (map shape0 as)
      \<and> flat A = concat (map flat as)" if "CombinationVec_insp_pts c = Inr A" for A
  proof -
    from that obtain as where as: "collect (map (\<lambda>v. atoms_of (insp_pts v)) vs) = Inr as"
        "np_concatenate as = Inr A"
      using c by (cases "collect (map (\<lambda>v. atoms_of (insp_pts v)) vs)")
        (simp_all add: CombinationVec_insp_pts_def)
    have "shape0 A = sum_list (map shape0 as) \<and> flat A = concat (map flat as)"
      using as(2) by (auto simp: np_concatenate_def split: if_splits)
    then show ?thesis
      using collect_atoms [OF as(1)] by blast
  qed
  have "list_all (\<lambda>v. RkhsVec_len v = Inr n) vs"
    using u by (rule check_lens_Inr)
  with vs n k c pts show ?thesis
    by (auto simp: CombinationVec_size_def)
qed

theorem CombinationVec_post_init_lengths_witness:
  "CombinationVec_post_init
     [RkhsVec (Atoms (column [1, 2])) (0 :: nat) (Repeat 3) False,
      RkhsVec (Atoms \<lparr>shape0 = 3, shape1 = 1, flat = [4, 5, 6]\<rparr>) 0 (Repeat 2) False]
     Add (Repeat 2) False
   = Inr \<lparr>rkhs_vecs = [RkhsVec (Atoms (column [1, 2])) 0 (Repeat 3) False,
                       RkhsVec (Atoms \<lparr>shape0 = 3, shape1 = 1, flat = [4, 5, 6]\<rparr>) 0 (Repeat 2) False],
          operator = Add, comb_reduce = Repeat 2, comb_transpose = False, stored_len = 12\<rparr>
   \<and> (\<exists>n. RkhsVec_len (RkhsVec (Atoms (column [1, 2])) (0 :: nat) (Repeat 3) False) = Inr n
          \<and> RkhsVec_len (RkhsVec (Atoms \<lparr>shape0 = 3, shape1 = 1, flat = [4, 5, 6]\<rparr>) (0 :: nat)
               (Repeat 2) False) = Inr n
          \<and> new_len (Repeat 2) n = Inr 12)"
proof -
  let ?v = "RkhsVec (Atoms (column [1, 2])) (0 :: nat) (Repeat 3) False"
  let ?w = "RkhsVec (Atoms \<lparr>shape0 = 3, shape1 = 1, flat = [4, 5, 6]\<rparr>) (0 :: nat) (Repeat 2) False"
  let ?c = "\<lparr>rkhs_vecs = [?v, ?w], operator = Add, comb_reduce = Repeat 2,
            comb_transpose = False, stored_len = 12\<rparr>"
  have init: "CombinationVec_post_init [?v, ?w] Add (Repeat 2) False = Inr ?c"
    by (simp add: CombinationVec_post_init_def RkhsVec_len_def py_len_def final_len_def
        Repeat_new_len_def column_def)
  from CombinationVec_post_init_lengths [OF init]
  obtain n where "RkhsVec_len (hd [?v, ?w]) = Inr n"
      "list_all (\<lambda>v. RkhsVec_len v = Inr n) [?v, ?w]"
      "new_len (Repeat 2) n = Inr (CombinationVec_size ?c)"
    by blast
  then have "RkhsVec_len ?v = Inr n \<and> RkhsVec_len ?w = Inr n \<and> new_len (Repeat 2) n = Inr 12"
    by (simp add: CombinationVec_size_def)
  with init show ?thesis by blast
qed


subsection \<open>Entries of an array and of a product\<close>

lemma row_nth:
  assumes "wf_array A" and "i < shape0 A"
  shows "row A i = map (\<lambda>j. flat A ! (i * shape1 A + j)) [0..<shape1 A]"
proof (rule nth_equalityI)
  show "length (row A i) = length (map (\<lambda>j. flat A ! (i * shape1 A + j)) [0..<shape1 A])"
    using length_row [OF assms] by simp
next
  fix j assume "j < length (row A i)"
  then have j: "j < shape1 A"
    using length_row [OF assms] by simp
  have "Suc i * shape1 A \<le> shape0 A * shape1 A"
    using assms(2) by (intro mult_le_mono1) simp
  then have "i * shape1 A + j < length (flat A)"
    using assms(1) j by (simp add: wf_array_def)
  then show "row A i ! j = map (\<lambda>j. flat A ! (i * shape1 A + j)) [0..<shape1 A] ! j"
    using j by (simp add: row_def)
qed

lemma sum_list_indicator:
  fixes g :: "nat \<Rightarrow> real"
  assumes "distinct grp" and "\<forall>i\<in>set grp. i < n"
  shows "(\<Sum>k\<leftarrow>[0..<n]. (if k \<in> set grp then w else 0) * g k) = w * (\<Sum>i\<leftarrow>grp. g i)"
proof -
  have "(\<Sum>k\<leftarrow>[0..<n]. (if k \<in> set grp then w else 0) * g k)
      = (\<Sum>k\<in>{0..<n}. (if k \<in> set grp then w * g k else 0))"
    by (simp add: interv_sum_list_conv_sum_set_nat if_distrib [of "\<lambda>x. x * _"] cong: if_cong)
  also have "\<dots> = (\<Sum>k\<in>{0..<n} \<inter> set grp. w * g k)"
    by (simp add: sum.inter_restrict)
  also have "{0..<n} \<inter> set grp = set grp"
    using assms(2) by auto
  also have "(\<Sum>k\<in>set grp. w * g k) = (\<Sum>i\<leftarrow>grp. w * g i)"
    using assms(1) by (simp add: sum_list_distinct_conv_sum_set)
  also have "\<dots> = w * (\<Sum>i\<leftarrow>grp. g i)"
    by (simp add: sum_list_const_mult)
  finally show ?thesis .
qed

lemma dot_unit_row:
  assumes "wf_array M" and "i < shape0 M"
  shows "map (dot (map (\<lambda>j. if i = j then 1 else 0) [0..<shape0 M]) M) [0..<shape1 M] = row M i"
proof -
  have "dot (map (\<lambda>j. if i = j then 1 else 0) [0..<shape0 M]) M j = flat M ! (i * shape1 M + j)"
    for j
  proof -
    have "dot (map (\<lambda>j. if i = j then 1 else 0) [0..<shape0 M]) M j
        = (\<Sum>k\<leftarrow>[0..<shape0 M]. (if k \<in> set [i] then 1 else 0) * flat M ! (k * shape1 M + j))"
      unfolding dot_def by (rule arg_cong [where f = sum_list]) (auto intro: map_cong)
    also have "\<dots> = 1 * (\<Sum>k\<leftarrow>[i]. flat M ! (k * shape1 M + j))"
      using assms(2) by (intro sum_list_indicator) simp_all
    finally show ?thesis by simp
  qed
  then show ?thesis
    using row_nth [OF assms] by simp
qed


subsection \<open>The linear map of TileView\<close>

lemma wf_eye: "wf_array (eye n)"
  unfolding eye_def by (rule wf_of_rows) auto

lemma row_eye:
  "i < n \<Longrightarrow> row (eye n) i = map (\<lambda>j. if i = j then 1 else 0) [0..<n]"
  unfolding eye_def by (subst row_of_rows) auto

lemma shape_eye: "shape0 (eye n) = n" "shape1 (eye n) = n"
  by (simp_all add: eye_def of_rows_def)

lemma TileView_linmap_matmul:
  assumes "wf_array M" and "TileView_matmul result_len (Arr M) = Inr (Arr R)"
  shows "\<exists>L. TileView_linmap result_len (shape0 M, shape1 M) 0 = Inr L \<and> matmul L M = Inr R"
proof -
  let ?n = "shape0 M" and ?reps = "result_len div int (shape0 M)"
  have n: "?n \<noteq> 0"
    using assms(2) by (auto split: if_splits)
  have tv: "tile_view M ?reps = Inr R"
    using assms(2) n by (cases "tile_view M ?reps") (auto split: if_splits)
  then have reps: "0 \<le> ?reps"
    by (auto simp: tile_view_def split: if_splits)
  from tile_view_rows [OF assms(1) reps] tv
  have R: "wf_array R" "shape0 R = nat ?reps * ?n" "shape1 R = shape1 M"
      "\<forall>i<shape0 R. row R i = row M (i mod ?n)"
    by auto
  from tile_view_rows [OF wf_eye reps, of ?n]
  obtain L where L: "tile_view (eye ?n) ?reps = Inr L" "shape0 L = nat ?reps * ?n"
      "shape1 L = ?n" "\<forall>i<shape0 L. row L i = row (eye ?n) (i mod ?n)"
    by (auto simp: shape_eye)
  have lin: "TileView_linmap result_len (shape0 M, shape1 M) 0 = Inr L"
    using n L(1) by (simp add: TileView_linmap_def shape_at_def)
  have "map (\<lambda>r. map (dot r M) [0..<shape1 M]) (rows L) = rows R"
  proof (rule nth_equalityI)
    show "length (map (\<lambda>r. map (dot r M) [0..<shape1 M]) (rows L)) = length (rows R)"
      using L(2) R(2) by (simp add: rows_def)
  next
    fix i assume "i < length (map (\<lambda>r. map (dot r M) [0..<shape1 M]) (rows L))"
    then have i: "i < nat ?reps * ?n"
      using L(2) by (simp add: rows_def)
    have m: "i mod ?n < ?n"
      using n by simp
    have "row L i = map (\<lambda>j. if i mod ?n = j then 1 else 0) [0..<?n]"
      using L(2,4) i m by (simp add: row_eye)
    then have "map (dot (row L i) M) [0..<shape1 M] = row M (i mod ?n)"
      using dot_unit_row [OF assms(1) m] by simp
    also have "\<dots> = row R i"
      using R(2,4) i by simp
    finally show "map (\<lambda>r. map (dot r M) [0..<shape1 M]) (rows L) ! i = rows R ! i"
      using i L(2) R(2) by (simp add: rows_def)
  qed
  then have "matmul L M = Inr (of_rows (shape1 R) (rows R))"
    using L(3) R(3) by (simp add: matmul_def)
  then have "matmul L M = Inr R"
    using of_rows_rows [OF R(1)] by simp
  with lin show ?thesis by blast
qed


subsection \<open>The linear map of SparseReduce\<close>

lemma index_inj:
  fixes n :: nat
  assumes "k < n" and "k' < n"
  shows "i * n + k' = q * n + k \<longleftrightarrow> i = q \<and> k' = k"
proof
  assume eq: "i * n + k' = q * n + k"
  have "(i * n + k') div n = i" "(q * n + k) div n = q"
    using assms by simp_all
  with eq have "i = q" by simp
  with eq show "i = q \<and> k' = k" by simp
qed simp

lemma length_at_set:
  "length (at_set L n_out n ps w) = length L"
  unfolding at_set_def by (induction ps arbitrary: L) (simp_all split: prod.splits)

lemma at_set_nth:
  assumes "length L = n_out * n" and "q < n_out" and "k < n"
  shows "at_set L n_out n ps w ! (q * n + k) = (if (q, k) \<in> set ps then w else L ! (q * n + k))"
  using assms(1)
proof (induction ps arbitrary: L)
  case Nil
  then show ?case by (simp add: at_set_def)
next
  case (Cons x ps)
  obtain i k' where x: "x = (i, k')" by (cases x)
  let ?L = "if i < n_out \<and> k' < n then L[i * n + k' := w] else L"
  have step: "at_set L n_out n (x # ps) w = at_set ?L n_out n ps w"
    by (simp add: at_set_def x)
  have len: "length ?L = n_out * n"
    using Cons.prems by simp
  have "Suc q * n \<le> n_out * n"
    using assms(2) by (intro mult_le_mono1) simp
  then have bound: "q * n + k < length L"
    using assms(3) Cons.prems by simp
  have "?L ! (q * n + k) = (if x = (q, k) then w else L ! (q * n + k))"
  proof (cases "i < n_out \<and> k' < n")
    case True
    then show ?thesis
      using bound assms(3) by (simp add: x nth_list_update index_inj)
  next
    case False
    then show ?thesis
      using assms(2,3) by (auto simp: x)
  qed
  then show ?case
    unfolding step using Cons.IH [OF len] by auto
qed

lemma zip_concat:
  "list_all2 (\<lambda>x y. length x = length y) xss yss \<Longrightarrow>
     zip (concat xss) (concat yss) = concat (map (\<lambda>(x, y). zip x y) (zip xss yss))"
  by (induction rule: list_all2_induct) simp_all

lemma zip_replicate_left:
  "length ys = c \<Longrightarrow> zip (replicate c x) ys = map (Pair x) ys"
  by (induction ys arbitrary: c) auto

lemma flat_concat_rows:
  "wf_array b \<Longrightarrow> flat b = concat (rows b)"
  using of_rows_rows [of b] by (metis ndarray.select_convs(3) of_rows_def)

lemma set_zip_block:
  assumes "wf_array b"
  shows "set (zip (concat (map (replicate (shape1 b)) (map (\<lambda>g. g + off) [0..<shape0 b])))
                  (flat b))
         = {(g + off, k) | g k. g < shape0 b \<and> k \<in> set (row b g)}"
proof -
  let ?xss = "map (\<lambda>g. replicate (shape1 b) (g + off)) [0..<shape0 b]"
  have all2: "list_all2 (\<lambda>x y. length x = length y) ?xss (rows b)"
    using assms by (simp add: list_all2_conv_all_nth rows_def length_row)
  have "zip (concat (map (replicate (shape1 b)) (map (\<lambda>g. g + off) [0..<shape0 b]))) (flat b)
      = zip (concat ?xss) (concat (rows b))"
    using flat_concat_rows [OF assms] by (simp add: comp_def)
  also have "\<dots> = concat (map (\<lambda>(x, y). zip x y) (zip ?xss (rows b)))"
    using all2 by (rule zip_concat)
  also have "zip ?xss (rows b)
      = map (\<lambda>g. (replicate (shape1 b) (g + off), row b g)) [0..<shape0 b]"
    by (simp add: rows_def zip_map_map zip_same_conv_map comp_def)
  also have "concat (map (\<lambda>(x, y). zip x y) \<dots>)
      = concat (map (\<lambda>g. map (Pair (g + off)) (row b g)) [0..<shape0 b])"
    using assms by (auto simp: comp_def length_row zip_replicate_left intro!: arg_cong [where f = concat])
  finally show ?thesis
    by auto
qed


lemma groups_Cons: "groups (b # bs) = rows b @ groups bs"
  by (simp add: groups_def)

lemma length_rows: "length (rows b) = shape0 b"
  by (simp add: rows_def)

lemma at_set_block_nth:
  assumes "wf_array b" and "length L = n_out * n" and "q < n_out" and "k < n"
  shows "(if shape1 b \<noteq> 0
          then at_set L n_out n
                 (zip (concat (map (replicate (shape1 b)) (map (\<lambda>g. g + off) [0..<shape0 b])))
                      (flat b)) w
          else L) ! (q * n + k)
         = (if off \<le> q \<and> q < off + shape0 b \<and> k \<in> set (row b (q - off)) then w
            else L ! (q * n + k))"
proof (cases "shape1 b = 0")
  case True
  then show ?thesis by (simp add: row_def)
next
  case False
  have "(q, k) \<in> {(g + off, k) | g k. g < shape0 b \<and> k \<in> set (row b g)}
      \<longleftrightarrow> off \<le> q \<and> q < off + shape0 b \<and> k \<in> set (row b (q - off))"
  proof
    assume "(q, k) \<in> {(g + off, k) | g k. g < shape0 b \<and> k \<in> set (row b g)}"
    then obtain g where "q = g + off" "g < shape0 b" "k \<in> set (row b g)"
      by blast
    then show "off \<le> q \<and> q < off + shape0 b \<and> k \<in> set (row b (q - off))"
      by simp
  next
    assume a: "off \<le> q \<and> q < off + shape0 b \<and> k \<in> set (row b (q - off))"
    then have "q = (q - off) + off" "q - off < shape0 b"
      by auto
    with a show "(q, k) \<in> {(g + off, k) | g k. g < shape0 b \<and> k \<in> set (row b g)}"
      by blast
  qed
  then show ?thesis
    using False at_set_nth [OF assms(2,3,4)] set_zip_block [OF assms(1), of off] by simp
qed

lemma linmap_loop_nth:
  assumes "list_all wf_array bs" and "length L = n_out * n" and "q < n_out" and "k < n"
  shows "linmap_loop average n_out n bs off L ! (q * n + k)
         = (if off \<le> q \<and> q < off + length (groups bs) \<and> k \<in> set (groups bs ! (q - off))
            then (if average then 1 / real (length (groups bs ! (q - off))) else 1)
            else L ! (q * n + k))"
  using assms(1,2)
proof (induction bs arbitrary: off L)
  case Nil
  then show ?case by (simp add: groups_def)
next
  case (Cons b bs)
  let ?w = "if average then 1 / real (shape1 b) else 1 :: real"
  let ?L = "if shape1 b \<noteq> 0
            then at_set L n_out n
                   (zip (concat (map (replicate (shape1 b)) (map (\<lambda>g. g + off) [0..<shape0 b])))
                        (flat b)) ?w
            else L"
  have wfb: "wf_array b" and wfbs: "list_all wf_array bs"
    using Cons.prems(1) by simp_all
  have len: "length ?L = n_out * n"
    using Cons.prems(2) by (simp add: length_at_set)
  have step: "linmap_loop average n_out n (b # bs) off L
      = linmap_loop average n_out n bs (off + shape0 b) ?L"
    by simp
  have L': "?L ! (q * n + k)
      = (if off \<le> q \<and> q < off + shape0 b \<and> k \<in> set (row b (q - off)) then ?w
         else L ! (q * n + k))"
    using at_set_block_nth [OF wfb Cons.prems(2) assms(3,4)] .
  note IH = Cons.IH [OF wfbs len, of "off + shape0 b"]
  consider (before) "q < off" | (inside) "off \<le> q" "q < off + shape0 b"
    | (after) "off + shape0 b \<le> q"
    by linarith
  then show ?case
  proof cases
    case before
    then show ?thesis
      unfolding step IH L' by simp
  next
    case inside
    then have g: "q - off < shape0 b" by simp
    have nth: "groups (b # bs) ! (q - off) = row b (q - off)"
      using g by (simp add: groups_Cons nth_append length_rows) (simp add: rows_def)
    have "length (row b (q - off)) = shape1 b"
      using wfb g by (rule length_row)
    then show ?thesis
      unfolding step IH L' nth using inside by (simp add: groups_Cons length_rows)
  next
    case after
    then have "\<not> q - off < shape0 b" and "q - off - shape0 b = q - (off + shape0 b)"
      by linarith+
    then have nth: "groups (b # bs) ! (q - off) = groups bs ! (q - (off + shape0 b))"
      by (simp add: groups_Cons nth_append length_rows)
    have "q < off + length (groups (b # bs)) \<longleftrightarrow> q < off + shape0 b + length (groups bs)"
      by (simp add: groups_Cons length_rows add.assoc)
    then show ?thesis
      unfolding step IH L' nth using after by auto
  qed
qed


lemma length_linmap_loop:
  "length (linmap_loop average n_out n bs off L) = length L"
  by (induction bs arbitrary: off L) (simp_all add: length_at_set)

lemma length_groups: "length (groups idcs) = sum_list (map shape0 idcs)"
  by (simp add: groups_def length_concat comp_def length_rows)

lemma SparseReduce_linmap_rows:
  assumes "list_all wf_array idcs" and "shape_at s axis = Inr n" and "int n = max_idx + 1"
  shows "\<exists>L. SparseReduce_linmap idcs average max_idx s axis = Inr L
           \<and> shape1 L = n \<and> rows L = map (lin_row average n) (groups idcs)"
proof -
  let ?n_out = "sum_list (map shape0 idcs)"
  let ?Z = "replicate (?n_out * n) (0 :: real)"
  let ?L = "\<lparr>shape0 = ?n_out, shape1 = n, flat = linmap_loop average ?n_out n idcs 0 ?Z\<rparr>"
  have n: "nat (max_idx + 1) = n"
    using assms(3) by simp
  have lin: "SparseReduce_linmap idcs average max_idx s axis = Inr ?L"
    using assms(2,3) n by (simp add: SparseReduce_linmap_def Let_def)
  have wf: "wf_array ?L"
    by (simp add: wf_array_def length_linmap_loop)
  have "rows ?L = map (lin_row average n) (groups idcs)"
  proof (rule nth_equalityI)
    show "length (rows ?L) = length (map (lin_row average n) (groups idcs))"
      by (simp add: length_rows length_groups)
  next
    fix q assume "q < length (rows ?L)"
    then have q: "q < ?n_out"
      by (simp add: length_rows)
    then have qg: "q < length (groups idcs)"
      by (simp add: length_groups)
    have "Suc q * n \<le> ?n_out * n"
      using q by (intro mult_le_mono1) simp
    then have zero: "?Z ! (q * n + k) = 0" if "k < n" for k
      using that by simp
    have "row ?L q = map (\<lambda>k. flat ?L ! (q * n + k)) [0..<n]"
      using row_nth [OF wf, of q] q by simp
    also have "\<dots> = lin_row average n (groups idcs ! q)"
      unfolding lin_row_def
    proof (rule map_cong [OF refl])
      fix k assume "k \<in> set [0..<n]"
      then have k: "k < n" by simp
      show "flat ?L ! (q * n + k)
          = (if k \<in> set (groups idcs ! q)
             then if average then 1 / real (length (groups idcs ! q)) else 1 else 0)"
        using linmap_loop_nth [OF assms(1) _ q k, of ?Z average 0] zero [OF k] qg by simp
    qed
    finally show "rows ?L ! q = map (lin_row average n) (groups idcs) ! q"
      using q qg by (simp add: rows_def)
  qed
  with lin show ?thesis by auto
qed

lemma collect_Inr_map:
  "collect xs = Inr ys \<Longrightarrow> xs = map Inr ys"
proof (induction xs arbitrary: ys)
  case Nil
  then show ?case by simp
next
  case (Cons x xs)
  show ?case
  proof (cases x)
    case (Inl e)
    with Cons.prems show ?thesis by simp
  next
    case x: (Inr y)
    show ?thesis
    proof (cases "collect xs")
      case (Inl e)
      with x Cons.prems show ?thesis by simp
    next
      case (Inr zs)
      with x Cons.prems have "ys = y # zs" by simp
      with x Cons.IH [OF Inr] show ?thesis by simp
    qed
  qed
qed

lemma reduce_axis_Nil:
  "reduce_axis average m [] = replicate m 0"
  by (simp add: reduce_axis_def mean_axis_def sum_axis_def map_replicate_const)

lemma reduce_block_rows:
  assumes "wf_array b" and "list_all (\<lambda>i. i < shape0 M) (flat b)"
    and "reduce_block average M b = Inr rs"
  shows "rs = map (red_row average M) (rows b)"
proof (cases "shape1 b = 0")
  case True
  then have "rows b = replicate (shape0 b) []"
    by (simp add: rows_def row_def [abs_def] map_replicate_const)
  with True assms(3) show ?thesis
    by (simp add: reduce_block_def red_row_def reduce_axis_Nil)
next
  case False
  let ?c = "shape1 b" and ?m = "shape1 M"
  show ?thesis
  proof (cases "flat b = []")
    case True
    with assms(1) False have "shape0 b = 0"
      by (simp add: wf_array_def)
    with True False assms(3) show ?thesis
      by (simp add: reduce_block_def gather_rows_def reshape_groups_def rows_def
          split: if_splits)
  next
    case nonempty: False
    let ?G = "map (row M) (flat b)"
    have "map (\<lambda>i. row M (min i (shape0 M - 1))) (flat b) = ?G"
      using assms(2) by (intro map_cong) (auto simp: list_all_iff min_def)
    then have gather: "shape0 M \<noteq> 0 \<and> gather_rows M (flat b) = Inr ?G"
      using assms(3) False nonempty
      by (auto simp: reduce_block_def gather_rows_def split: if_splits)
    then have m: "?c * ?m \<noteq> 0"
      using assms(3) False by (auto simp: reduce_block_def reshape_groups_def split: if_splits)
    have "length ?G div ?c = shape0 b"
      using assms(1) False by (simp add: wf_array_def)
    then have "reshape_groups ?c ?m ?G = Inr (map (\<lambda>grp. map (row M) grp) (rows b))"
      using m by (simp add: reshape_groups_def rows_def row_def take_map drop_map)
    then show ?thesis
      using assms(3) False gather by (auto simp: reduce_block_def red_row_def [abs_def] comp_def)
  qed
qed

lemma dot_lin_row:
  assumes "wf_array M" and "distinct grp" and "\<forall>i\<in>set grp. i < shape0 M"
  shows "map (dot (lin_row average (shape0 M) grp) M) [0..<shape1 M] = red_row average M grp"
proof -
  let ?n = "shape0 M" and ?c = "shape1 M"
  let ?w = "if average then 1 / real (length grp) else 1 :: real"
  have entry: "(\<Sum>r\<leftarrow>map (row M) grp. r ! j) = (\<Sum>i\<leftarrow>grp. flat M ! (i * ?c + j))"
    if "j < ?c" for j
  proof -
    have "(\<Sum>r\<leftarrow>map (row M) grp. r ! j) = (\<Sum>i\<leftarrow>grp. row M i ! j)"
      by (simp add: comp_def)
    also have "\<dots> = (\<Sum>i\<leftarrow>grp. flat M ! (i * ?c + j))"
      using assms(1,3) that
      by (intro arg_cong [where f = sum_list] map_cong refl) (simp add: row_nth)
    finally show ?thesis .
  qed
  have "dot (lin_row average ?n grp) M j = ?w * (\<Sum>i\<leftarrow>grp. flat M ! (i * ?c + j))" for j
  proof -
    have "dot (lin_row average ?n grp) M j
        = (\<Sum>k\<leftarrow>[0..<?n]. lin_row average ?n grp ! k * flat M ! (k * ?c + j))"
      by (simp add: dot_def)
    also have "\<dots> = (\<Sum>k\<leftarrow>[0..<?n]. (if k \<in> set grp then ?w else 0) * flat M ! (k * ?c + j))"
      by (intro arg_cong [where f = sum_list] map_cong refl) (simp add: lin_row_def)
    also have "\<dots> = ?w * (\<Sum>i\<leftarrow>grp. flat M ! (i * ?c + j))"
      using assms(2,3) by (rule sum_list_indicator)
    finally show ?thesis .
  qed
  then have "map (dot (lin_row average ?n grp) M) [0..<?c]
      = map (\<lambda>j. ?w * (\<Sum>r\<leftarrow>map (row M) grp. r ! j)) [0..<?c]"
    using entry by (intro map_cong) simp_all
  also have "\<dots> = red_row average M grp"
    by (simp add: red_row_def reduce_axis_def mean_axis_def sum_axis_def)
  finally show ?thesis .
qed


lemma set_row_subset: "set (row b g) \<subseteq> set (flat b)"
  unfolding row_def by (meson set_take_subset set_drop_subset subset_trans)

lemma SparseReduce_matmul_rows:
  assumes "list_all wf_array idcs"
    and "list_all (\<lambda>b. list_all (\<lambda>i. i < shape0 M) (flat b)) idcs"
    and "SparseReduce_matmul idcs average max_idx (Arr M) = Inr (Arr R)"
  shows "R = of_rows (shape1 M) (map (red_row average M) (groups idcs))"
proof -
  from assms(3) obtain rval where rval: "collect (map (reduce_block average M) idcs) = Inr rval"
      and R: "R = of_rows (shape1 M) (concat rval)"
    by (cases "collect (map (reduce_block average M) idcs)") (auto split: if_splits)
  have eq: "map (reduce_block average M) idcs = map Inr rval"
    using rval by (rule collect_Inr_map)
  have "rval = map (\<lambda>b. map (red_row average M) (rows b)) idcs"
  proof (rule nth_equalityI)
    show "length rval = length (map (\<lambda>b. map (red_row average M) (rows b)) idcs)"
      using arg_cong [OF eq, of length] by simp
  next
    fix i assume "i < length rval"
    then have i: "i < length idcs"
      using arg_cong [OF eq, of length] by simp
    then have "reduce_block average M (idcs ! i) = Inr (rval ! i)"
      using arg_cong [OF eq, of "\<lambda>xs. xs ! i"] \<open>i < length rval\<close> by simp
    moreover have "wf_array (idcs ! i)" "list_all (\<lambda>i. i < shape0 M) (flat (idcs ! i))"
      using assms(1,2) i by (simp_all add: list_all_length)
    ultimately have "rval ! i = map (red_row average M) (rows (idcs ! i))"
      using reduce_block_rows by blast
    then show "rval ! i = map (\<lambda>b. map (red_row average M) (rows b)) idcs ! i"
      using i by simp
  qed
  then have "concat rval = map (red_row average M) (groups idcs)"
    by (simp add: groups_def map_concat comp_def)
  with R show ?thesis by simp
qed

lemma SparseReduce_linmap_matmul:
  assumes "wf_array M" and "list_all wf_array idcs"
    and "list_all (\<lambda>b. list_all (\<lambda>i. int i \<le> max_idx) (flat b)) idcs"
    and "list_all (\<lambda>b. list_all distinct (rows b)) idcs"
    and "int (shape0 M) = max_idx + 1"
    and "SparseReduce_matmul idcs average max_idx (Arr M) = Inr (Arr R)"
  shows "\<exists>L. SparseReduce_linmap idcs average max_idx (shape0 M, shape1 M) 0 = Inr L
           \<and> matmul L M = Inr R"
proof -
  let ?n = "shape0 M" and ?m = "shape1 M"
  have range: "list_all (\<lambda>b. list_all (\<lambda>i. i < ?n) (flat b)) idcs"
    using assms(3,5) by (fastforce simp: list_all_iff)
  have R: "R = of_rows ?m (map (red_row average M) (groups idcs))"
    using assms(2) range assms(6) by (rule SparseReduce_matmul_rows)
  have "shape_at (?n, ?m) 0 = Inr ?n"
    by (simp add: shape_at_def)
  from SparseReduce_linmap_rows [OF assms(2) this assms(5), of average]
  obtain L where L: "SparseReduce_linmap idcs average max_idx (?n, ?m) 0 = Inr L"
      "shape1 L = ?n" "rows L = map (lin_row average ?n) (groups idcs)"
    by blast
  have grp: "distinct grp \<and> (\<forall>i\<in>set grp. i < ?n)" if "grp \<in> set (groups idcs)" for grp
  proof -
    from that obtain b where b: "b \<in> set idcs" "grp \<in> set (rows b)"
      by (auto simp: groups_def)
    then obtain g where "grp = row b g"
      by (auto simp: rows_def)
    then have "set grp \<subseteq> set (flat b)"
      by (simp add: set_row_subset)
    moreover have "\<forall>i\<in>set (flat b). i < ?n"
      using range b(1) by (simp add: list_all_iff)
    moreover have "distinct grp"
      using assms(4) b by (simp add: list_all_iff)
    ultimately show ?thesis by blast
  qed
  have "map (\<lambda>r. map (dot r M) [0..<?m]) (rows L) = map (red_row average M) (groups idcs)"
    unfolding L(3) map_map comp_def
    by (rule map_cong [OF refl]) (use grp assms(1) in \<open>simp add: dot_lin_row\<close>)
  then have "matmul L M = Inr R"
    using L(2) R by (simp add: matmul_def)
  with L(1) show ?thesis by blast
qed


subsection \<open>Application against the linear map\<close>

text \<open>
  C2, as the claim states it: for every linearizable reduction and every matrix \<open>M\<close> on
  which application succeeds, the result equals \<open>linmap(M.shape) @ M\<close>. The
  \<open>SparseReduce\<close> with the single group \<open>[0]\<close> and \<open>max_idx = 0\<close> applies to the column
  \<open>[1, 2]\<close> and yields \<open>[1]\<close>, while its \<open>linmap\<close> raises on the shape \<open>(2, 1)\<close>, which is
  not of \<open>max_idx + 1\<close> rows: there is no matrix to multiply.
\<close>

theorem SparseReduce_linmap_raises_where_matmul_succeeds:
  "SparseReduce_matmul [\<lparr>shape0 = 1, shape1 = 1, flat = [0]\<rparr>] True 0 (Arr (column [1, 2]))
     = Inr (Arr \<lparr>shape0 = 1, shape1 = 1, flat = [1]\<rparr>)
   \<and> SparseReduce_linmap [\<lparr>shape0 = 1, shape1 = 1, flat = [0]\<rparr>] True 0
       (shape0 (column [1, 2 :: real]), shape1 (column [1, 2 :: real])) 0
     = Inl ValueError"
  by (simp add: reduce_block_def gather_rows_def reshape_groups_def reduce_axis_def
      mean_axis_def of_rows_def row_def column_def SparseReduce_linmap_def shape_at_def)

text \<open>
  C2 (amended). Entries are real numbers, so the equality is exact. For every matrix
  \<open>M\<close> on which application succeeds, applying the reduction yields the matrix
  \<open>linmap(M.shape) @ M\<close>
  \<^item> for \<open>TileView\<close>;
  \<^item> for \<open>SparseReduce\<close>, when \<open>M\<close> has exactly \<open>max_idx + 1\<close> rows, no index exceeds
    \<open>max_idx\<close>, and no index group (row of an index block) names a row twice;
  \<^item> for \<open>LinearReduce\<close>, whose two methods are taken from the specification.
\<close>

theorem linmap_agrees_with_matmul:
  assumes "wf_array M"
  shows "(TileView_matmul result_len (Arr M) = Inr (Arr R) \<longrightarrow>
            (\<exists>L. TileView_linmap result_len (shape0 M, shape1 M) 0 = Inr L
                 \<and> matmul L M = Inr R))
       \<and> (list_all wf_array idcs
            \<and> list_all (\<lambda>b. list_all (\<lambda>i. int i \<le> max_idx) (flat b)) idcs
            \<and> list_all (\<lambda>b. list_all distinct (rows b)) idcs
            \<and> int (shape0 M) = max_idx + 1
            \<and> SparseReduce_matmul idcs average max_idx (Arr M) = Inr (Arr R') \<longrightarrow>
            (\<exists>L. SparseReduce_linmap idcs average max_idx (shape0 M, shape1 M) 0 = Inr L
                 \<and> matmul L M = Inr R'))
       \<and> (reduce_matmul (LinearReduce linear_map) (Arr M) = Inr (Arr R'') \<longrightarrow>
            (\<exists>L. LinearReduce_linmap linear_map (shape0 M, shape1 M) 0 = Inr L
                 \<and> matmul L M = Inr R''))"
proof (intro conjI impI)
  assume "TileView_matmul result_len (Arr M) = Inr (Arr R)"
  with assms show "\<exists>L. TileView_linmap result_len (shape0 M, shape1 M) 0 = Inr L
      \<and> matmul L M = Inr R"
    by (rule TileView_linmap_matmul)
next
  assume "list_all wf_array idcs
      \<and> list_all (\<lambda>b. list_all (\<lambda>i. int i \<le> max_idx) (flat b)) idcs
      \<and> list_all (\<lambda>b. list_all distinct (rows b)) idcs
      \<and> int (shape0 M) = max_idx + 1
      \<and> SparseReduce_matmul idcs average max_idx (Arr M) = Inr (Arr R')"
  with assms show "\<exists>L. SparseReduce_linmap idcs average max_idx (shape0 M, shape1 M) 0 = Inr L
      \<and> matmul L M = Inr R'"
    using SparseReduce_linmap_matmul by blast
next
  assume "reduce_matmul (LinearReduce linear_map) (Arr M) = Inr (Arr R'')"
  then have "matmul linear_map M = Inr R''"
    by (cases "matmul linear_map M") (simp_all add: LinearReduce_matmul_def)
  then show "\<exists>L. LinearReduce_linmap linear_map (shape0 M, shape1 M) 0 = Inr L
      \<and> matmul L M = Inr R''"
    by (simp add: LinearReduce_linmap_def)
qed

theorem linmap_agrees_with_matmul_witness:
  "(\<exists>L. TileView_linmap 6 (2, 3) 0 = Inr L
        \<and> matmul L \<lparr>shape0 = 2, shape1 = 3, flat = [1, 2, 3, 4, 5, 6]\<rparr>
          = Inr \<lparr>shape0 = 6, shape1 = 3,
                 flat = [1, 2, 3, 4, 5, 6, 1, 2, 3, 4, 5, 6, 1, 2, 3, 4, 5, 6]\<rparr>)
   \<and> (\<exists>L. SparseReduce_linmap
          [\<lparr>shape0 = 2, shape1 = 2, flat = [0, 1, 0, 2]\<rparr>, \<lparr>shape0 = 1, shape1 = 3, flat = [0, 1, 2]\<rparr>]
          True 2 (3, 3) 0 = Inr L
        \<and> matmul L \<lparr>shape0 = 3, shape1 = 3, flat = [1, 2, 3, 4, 5, 6, 7, 8, 9]\<rparr>
          = Inr \<lparr>shape0 = 3, shape1 = 3, flat = [5 / 2, 7 / 2, 9 / 2, 4, 5, 6, 4, 5, 6]\<rparr>)
   \<and> (\<exists>L. LinearReduce_linmap \<lparr>shape0 = 1, shape1 = 2, flat = [1, 1]\<rparr> (2, 1) 0 = Inr L
        \<and> matmul L \<lparr>shape0 = 2, shape1 = 1, flat = [3, 4]\<rparr> = Inr \<lparr>shape0 = 1, shape1 = 1, flat = [7]\<rparr>)"
proof -
  let ?M = "\<lparr>shape0 = 2, shape1 = 3, flat = [1, 2, 3, 4, 5, 6 :: real]\<rparr>"
  let ?N = "\<lparr>shape0 = 3, shape1 = 3, flat = [1, 2, 3, 4, 5, 6, 7, 8, 9 :: real]\<rparr>"
  let ?idcs = "[\<lparr>shape0 = 2, shape1 = 2, flat = [0, 1, 0, 2 :: nat]\<rparr>,
                \<lparr>shape0 = 1, shape1 = 3, flat = [0, 1, 2]\<rparr>]"
  let ?A = "\<lparr>shape0 = 1, shape1 = 2, flat = [1, 1 :: real]\<rparr>"
  have wf: "wf_array ?M" "wf_array ?N" "wf_array \<lparr>shape0 = 2, shape1 = 1, flat = [3, 4 :: real]\<rparr>"
    by (simp_all add: wf_array_def column_def)
  have tile: "TileView_matmul 6 (Arr ?M) = Inr (Arr \<lparr>shape0 = 6, shape1 = 3,
      flat = [1, 2, 3, 4, 5, 6, 1, 2, 3, 4, 5, 6, 1, 2, 3, 4, 5, 6]\<rparr>)"
    by (simp add: tile_view_def numeral_3_eq_3)
  have sparse: "list_all wf_array ?idcs
      \<and> list_all (\<lambda>b. list_all (\<lambda>i. int i \<le> 2) (flat b)) ?idcs
      \<and> list_all (\<lambda>b. list_all distinct (rows b)) ?idcs
      \<and> int (shape0 ?N) = 2 + 1
      \<and> SparseReduce_matmul ?idcs True 2 (Arr ?N)
        = Inr (Arr \<lparr>shape0 = 3, shape1 = 3, flat = [5 / 2, 7 / 2, 9 / 2, 4, 5, 6, 4, 5, 6]\<rparr>)"
    by (simp add: wf_array_def rows_def reduce_block_def gather_rows_def reshape_groups_def
        reduce_axis_def mean_axis_def of_rows_def row_def upt_conv_Cons)
  have linear: "reduce_matmul (LinearReduce ?A) (Arr \<lparr>shape0 = 2, shape1 = 1, flat = [3, 4]\<rparr>)
      = Inr (Arr \<lparr>shape0 = 1, shape1 = 1, flat = [7]\<rparr>)"
    by (simp add: LinearReduce_matmul_def matmul_def dot_def of_rows_def rows_def row_def
        column_def upt_conv_Cons)
  have "\<exists>L. TileView_linmap 6 (2, 3) 0 = Inr L \<and> matmul L ?M = Inr \<lparr>shape0 = 6, shape1 = 3,
      flat = [1, 2, 3, 4, 5, 6, 1, 2, 3, 4, 5, 6, 1, 2, 3, 4, 5, 6]\<rparr>"
    using linmap_agrees_with_matmul [OF wf(1), where result_len = 6
        and R = "\<lparr>shape0 = 6, shape1 = 3,
          flat = [1, 2, 3, 4, 5, 6, 1, 2, 3, 4, 5, 6, 1, 2, 3, 4, 5, 6]\<rparr>"] tile
    by simp
  moreover have "\<exists>L. SparseReduce_linmap ?idcs True 2 (3, 3) 0 = Inr L \<and> matmul L ?N
      = Inr \<lparr>shape0 = 3, shape1 = 3, flat = [5 / 2, 7 / 2, 9 / 2, 4, 5, 6, 4, 5, 6]\<rparr>"
    using linmap_agrees_with_matmul [OF wf(2), where idcs = ?idcs and max_idx = 2
        and average = True
        and R' = "\<lparr>shape0 = 3, shape1 = 3, flat = [5 / 2, 7 / 2, 9 / 2, 4, 5, 6, 4, 5, 6]\<rparr>"]
      sparse
    by simp
  moreover have "\<exists>L. LinearReduce_linmap ?A (2, 1) 0 = Inr L
      \<and> matmul L \<lparr>shape0 = 2, shape1 = 1, flat = [3, 4]\<rparr> = Inr \<lparr>shape0 = 1, shape1 = 1, flat = [7]\<rparr>"
    using linmap_agrees_with_matmul [OF wf(3), THEN conjunct2, THEN conjunct2, rule_format,
        OF linear]
    by simp
  ultimately show ?thesis by blast
qed


subsection \<open>The blocks of \<open>sum_from_unique\<close>\<close>

lemma concat_slices:
  "sorted ch \<Longrightarrow> ch \<noteq> [] \<Longrightarrow> concat (slices G ch) = map (\<lambda>j. G ! j) [hd ch..<last ch]"
proof (induction ch rule: induct_list012)
  case 1
  then show ?case by simp
next
  case (2 a)
  then show ?case by (simp add: slices_def)
next
  case (3 a b ch)
  have ab: "a \<le> b" and bl: "b \<le> last (b # ch)"
    using "3.prems"(1) by auto
  have "slices G (a # b # ch) = map (\<lambda>j. G ! j) [a..<b] # slices G (b # ch)"
    by (simp add: slices_def map_upt_Suc del: upt_Suc)
  then have "concat (slices G (a # b # ch))
      = map (\<lambda>j. G ! j) [a..<b] @ map (\<lambda>j. G ! j) [b..<last (b # ch)]"
    using "3.IH"(2) "3.prems"(1) by simp
  also have "\<dots> = map (\<lambda>j. G ! j) [a..<last (b # ch)]"
    using ab bl by (metis map_append upt_add_eq_append le_Suc_ex)
  finally show ?case by simp
qed

lemma change_points_sorted:
  "0 < length ls \<Longrightarrow> sorted_wrt (<) (change_points ls)"
proof -
  assume pos: "0 < length ls"
  let ?cs = "map Suc (filter (\<lambda>k. ls ! k \<noteq> ls ! Suc k) [0..<length ls - 1])"
  have "sorted_wrt (<) (filter (\<lambda>k. ls ! k \<noteq> ls ! Suc k) [0..<length ls - 1])"
    by (rule sorted_wrt_filter) (simp add: sorted_wrt_upt)
  then have cs: "sorted_wrt (<) ?cs"
    by (simp add: sorted_wrt_map)
  have bounds: "\<forall>x\<in>set ?cs. 0 < x \<and> x < length ls"
    using pos by auto
  have "sorted_wrt (<) (?cs @ [length ls])"
    using cs bounds by (simp add: sorted_wrt_append)
  then show ?thesis
    using bounds pos by (auto simp: change_points_def)
qed

lemma change_points_ends:
  "hd (change_points ls) = 0" "last (change_points ls) = length ls"
  "1 < length (change_points ls)" "\<forall>x\<in>set (change_points ls). x \<le> length ls"
  by (auto simp: change_points_def)

lemma change_points_mem:
  "j < length ls - 1 \<Longrightarrow> ls ! j \<noteq> ls ! Suc j \<Longrightarrow> Suc j \<in> set (change_points ls)"
  by (simp add: change_points_def)


lemma strict_sorted_nth_le:
  "sorted_wrt (<) (ch :: nat list) \<Longrightarrow> p \<le> i \<Longrightarrow> i < length ch \<Longrightarrow> ch ! p \<le> ch ! i"
  by (cases "p = i") (auto dest: sorted_wrt_nth_less [where i = p and j = i])

lemma change_points_block_const:
  assumes "0 < length ls" and "i < length (change_points ls) - 1"
    and "change_points ls ! i \<le> j" and "j < change_points ls ! Suc i"
  shows "ls ! j = ls ! (change_points ls ! i)"
  using assms(3,4)
proof (induction j rule: dec_induct)
  case base
  then show ?case by simp
next
  case (step n)
  let ?ch = "change_points ls"
  have sorted: "sorted_wrt (<) ?ch"
    using assms(1) by (rule change_points_sorted)
  have upper: "?ch ! Suc i \<le> length ls"
    using assms(2) change_points_ends(4) [of ls] by (simp add: all_set_conv_all_nth)
  have "ls ! n = ls ! Suc n"
  proof (rule ccontr)
    assume "ls ! n \<noteq> ls ! Suc n"
    moreover have "n < length ls - 1"
      using step.prems upper by simp
    ultimately have "Suc n \<in> set ?ch"
      by (simp add: change_points_mem)
    then obtain p where p: "p < length ?ch" "?ch ! p = Suc n"
      by (auto simp: in_set_conv_nth)
    have "\<not> p \<le> i"
    proof
      assume "p \<le> i"
      then have "?ch ! p \<le> ?ch ! i"
        using sorted assms(2) by (intro strict_sorted_nth_le) simp_all
      with p(2) step.hyps(1) show False by simp
    qed
    moreover have "\<not> Suc i \<le> p"
    proof
      assume "Suc i \<le> p"
      then have "?ch ! Suc i \<le> ?ch ! p"
        using sorted p(1) by (intro strict_sorted_nth_le) simp_all
      with p(2) step.prems show False by simp
    qed
    ultimately show False by simp
  qed
  moreover have "ls ! n = ls ! (?ch ! i)"
    using step.IH step.prems by simp
  ultimately show ?case by simp
qed

lemma np_array_uniform:
  assumes "rs \<noteq> []" and "\<forall>r\<in>set rs. length r = c"
  shows "np_array rs = Inr (of_rows c rs)"
proof -
  have "length (hd rs) = c"
    using assms by (cases rs) simp_all
  then show ?thesis
    using assms by (simp add: np_array_def of_rows_def list_all_iff)
qed

lemma slice_uniform:
  assumes "length G = length ls" and "0 < length ls" and "\<forall>j<length ls. length (G ! j) = ls ! j"
    and "i < length (change_points ls) - 1"
  shows "map (\<lambda>j. G ! j) [change_points ls ! i..<change_points ls ! Suc i] \<noteq> []"
    and "\<forall>r\<in>set (map (\<lambda>j. G ! j) [change_points ls ! i..<change_points ls ! Suc i]).
           length r = ls ! (change_points ls ! i)"
proof -
  let ?ch = "change_points ls"
  let ?B = "map (\<lambda>j. G ! j) [?ch ! i..<?ch ! Suc i]"
  have "?ch ! i < ?ch ! Suc i"
    using sorted_wrt_nth_less [OF change_points_sorted [OF assms(2)], of i "Suc i"] assms(4)
    by simp
  then show "?B \<noteq> []" by simp
  have upper: "?ch ! Suc i \<le> length ls"
    using assms(4) change_points_ends(4) [of ls] by (simp add: all_set_conv_all_nth)
  show "\<forall>r\<in>set ?B. length r = ls ! (?ch ! i)"
  proof
    fix r assume "r \<in> set ?B"
    then obtain j where j: "r = G ! j" "?ch ! i \<le> j" "j < ?ch ! Suc i"
      by auto
    then have "length r = ls ! j"
      using assms(3) upper by simp
    then show "length r = ls ! (?ch ! i)"
      using change_points_block_const [OF assms(2,4) j(2,3)] by simp
  qed
qed

lemma collect_map_Inr_id: "collect (map Inr ys) = Inr ys"
  by (induction ys) simp_all

lemma blocks_of_slices:
  assumes "length G = length ls" and "0 < length ls" and "\<forall>j<length ls. length (G ! j) = ls ! j"
  shows "\<exists>el. collect (map np_array (slices G (change_points ls))) = Inr el \<and> el \<noteq> []
           \<and> list_all wf_array el \<and> groups el = G"
proof -
  let ?ch = "change_points ls"
  let ?B = "\<lambda>i. map (\<lambda>j. G ! j) [?ch ! i..<?ch ! Suc i]"
  let ?el = "map (\<lambda>i. of_rows (ls ! (?ch ! i)) (?B i)) [0..<length ?ch - 1]"
  note uni = slice_uniform [OF assms]
  have blk: "np_array (?B i) = Inr (of_rows (ls ! (?ch ! i)) (?B i))"
    if "i < length ?ch - 1" for i
    by (rule np_array_uniform [OF uni(1) [OF that] uni(2) [OF that]])
  have rws: "rows (of_rows (ls ! (?ch ! i)) (?B i)) = ?B i" if "i < length ?ch - 1" for i
    by (rule rows_of_rows [OF uni(2) [OF that]])
  have wfs: "wf_array (of_rows (ls ! (?ch ! i)) (?B i))" if "i < length ?ch - 1" for i
    by (rule wf_of_rows [OF uni(2) [OF that]])
  have "map np_array (slices G ?ch) = map Inr ?el"
    unfolding slices_def map_map comp_def
    by (rule map_cong [OF refl]) (simp only: blk set_upt atLeastLessThan_iff)
  then have "collect (map np_array (slices G ?ch)) = Inr ?el"
    by (simp only: collect_map_Inr_id)
  moreover have "?el \<noteq> []"
    using change_points_ends(3) [of ls] by simp
  moreover have "list_all wf_array ?el"
    unfolding list_all_length using wfs by simp
  moreover have "groups ?el = G"
  proof -
    have "map rows ?el = slices G ?ch"
      unfolding slices_def map_map comp_def
      by (rule map_cong [OF refl]) (simp only: rws set_upt atLeastLessThan_iff)
    then have "groups ?el = concat (slices G ?ch)"
      by (simp only: groups_def)
    also have "\<dots> = map (\<lambda>j. G ! j) [hd ?ch..<last ?ch]"
      using change_points_sorted [OF assms(2)] change_points_ends(3) [of ls]
      by (intro concat_slices) (auto simp: strict_sorted_imp_sorted)
    also have "\<dots> = G"
      using map_nth [of G] assms(1) by (simp add: change_points_ends)
    finally show ?thesis .
  qed
  ultimately show ?thesis by blast
qed


subsection \<open>Positions, and sorting positions by a key\<close>

lemma length_positions: "length (positions xs v) = count_list xs v"
proof -
  have "filter (\<lambda>x. x = v) (map (\<lambda>k. xs ! k) [0..<length xs])
      = map (\<lambda>k. xs ! k) (positions xs v)"
    by (simp add: positions_def filter_map comp_def)
  then have "length (positions xs v) = length (filter (\<lambda>x. x = v) xs)"
    by (metis length_map map_nth)
  also have "filter (\<lambda>x. x = v) xs = filter ((=) v) xs"
    by (rule filter_cong) auto
  also have "length (filter ((=) v) xs) = count_list xs v"
    by (simp add: count_list_eq_length_filter)
  finally show ?thesis .
qed

lemma positions_mem: "k \<in> set (positions xs v) \<Longrightarrow> k < length xs \<and> xs ! k = v"
  by (simp add: positions_def)

lemma positions_nonempty: "v \<in> set xs \<Longrightarrow> positions xs v \<noteq> []"
  using length_positions [of xs v] count_list_0_iff [of xs v] by auto

lemma insort_key_map:
  "map g (insort_key (\<lambda>x. f (g x)) a zs) = insort_key f (g a) (map g zs)"
  by (induction zs) simp_all

lemma sort_key_map:
  "map g (sort_key (\<lambda>x. f (g x)) xs) = sort_key f (map g xs)"
  by (induction xs) (simp_all add: insort_key_map)

lemma insort_key_agree:
  "f a = g a \<Longrightarrow> \<forall>x\<in>set zs. f x = g x \<Longrightarrow> insort_key f a zs = insort_key g a zs"
  by (induction zs) simp_all

lemma sort_key_agree:
  "\<forall>x\<in>set xs. f x = g x \<Longrightarrow> sort_key f xs = sort_key g xs"
proof (induction xs)
  case Nil
  then show ?case by simp
next
  case (Cons x xs)
  then have "sort_key f xs = sort_key g xs" by simp
  moreover have "insort_key f x (sort_key g xs) = insort_key g x (sort_key g xs)"
    using Cons.prems by (intro insort_key_agree) simp_all
  ultimately show ?case by simp
qed

lemma argsort_values:
  fixes un :: "real list" and l_arr :: "nat list"
  assumes "length l_arr = length un" and "\<forall>i<length un. l_arr ! i = f (un ! i)"
  shows "map (\<lambda>i. un ! i) (sort_key (\<lambda>i. l_arr ! i) [0..<length l_arr]) = sort_key f un"
proof -
  have "sort_key (\<lambda>i. l_arr ! i) [0..<length un] = sort_key (\<lambda>i. f (un ! i)) [0..<length un]"
    by (rule sort_key_agree) (use assms(2) in simp)
  then show ?thesis
    using sort_key_map [of "\<lambda>i. un ! i" f "[0..<length un]"] assms(1) by (simp add: map_nth)
qed

lemma sum_from_unique_eq:
  "sum_from_unique xs mean =
     (let un = sort (remdups xs);
          l_arr = map (\<lambda>v. length (positions xs v)) un;
          argsort = sort_key (\<lambda>i. l_arr ! i) [0..<length l_arr];
          G = map (\<lambda>i. map (positions xs) un ! i) argsort;
          ls = map (\<lambda>i. l_arr ! i) argsort
      in case collect (map np_array (slices G (change_points ls))) of
           Inl e \<Rightarrow> Inl e
         | Inr el \<Rightarrow>
             (case SparseReduce_post_init el mean None of
                Inl e \<Rightarrow> Inl e
              | Inr sr \<Rightarrow>
                  Inr (map (\<lambda>i. un ! i) argsort,
                       map (\<lambda>i. map (count_list xs) un ! i) argsort, sr)))"
  unfolding sum_from_unique_def Let_def
  by (simp only: positions_def [abs_def] change_points_def slices_def map_map length_map
        length_sort length_upt diff_zero,
      simp only: comp_def)


subsection \<open>Applying the reduction of \<open>sum_from_unique\<close>\<close>

lemma row_column: "k < length xs \<Longrightarrow> row (column xs) k = [xs ! k]"
  by (simp add: row_def column_def take_Suc_conv_app_nth)

lemma red_row_column:
  assumes "\<forall>k\<in>set ps. k < length xs"
  shows "red_row mean (column xs) ps
         = [if mean then (\<Sum>k\<leftarrow>ps. xs ! k) / real (length ps) else (\<Sum>k\<leftarrow>ps. xs ! k)]"
proof -
  have "map (row (column xs)) ps = map (\<lambda>k. [xs ! k]) ps"
    using assms by (intro map_cong refl) (simp add: row_column)
  then have "(\<Sum>r\<leftarrow>map (row (column xs)) ps. r ! 0) = (\<Sum>k\<leftarrow>ps. xs ! k)"
    by (simp only: map_map comp_def nth_Cons_0)
  then show ?thesis
    by (simp add: red_row_def reduce_axis_def mean_axis_def sum_axis_def column_def)
qed

lemma sum_list_positions:
  "(\<Sum>k\<leftarrow>positions xs v. xs ! k) = real (count_list xs v) * v"
proof -
  have "map (\<lambda>k. xs ! k) (positions xs v) = replicate (length (positions xs v)) v"
    by (rule replicate_eqI) (auto dest: positions_mem)
  then show ?thesis
    by (simp add: length_positions sum_list_replicate)
qed

lemma SparseReduce_matmul_succeeds:
  assumes "idcs \<noteq> []" and "0 < shape0 M" and "0 < shape1 M"
    and "max_idx + 1 \<le> int (shape0 M)"
  shows "\<exists>R. SparseReduce_matmul idcs average max_idx (Arr M) = Inr (Arr R)"
proof -
  have "\<forall>b\<in>set idcs. \<exists>rs. reduce_block average M b = Inr rs"
    using assms(2,3) by (simp add: reduce_block_succeeds)
  then obtain rval where "collect (map (reduce_block average M) idcs) = Inr rval"
      "length rval = length idcs"
    using collect_Inr by blast
  moreover from this assms(1) have "rval \<noteq> []"
    by auto
  ultimately show ?thesis
    using assms(4) by simp
qed

lemma SparseReduce_post_init_inferred:
  assumes "list_all wf_array el" and "\<exists>g\<in>set (groups el). g \<noteq> []"
    and "\<forall>g\<in>set (groups el). \<forall>i\<in>set g. i < n"
  shows "\<exists>m. SparseReduce_post_init el mean None = Inr (SparseReduce el mean m) \<and> m < int n"
proof -
  let ?max_list = "map (\<lambda>i. Max (set (flat i))) (filter (\<lambda>i. flat i \<noteq> []) el)"
  have flat: "set (flat b) = \<Union> (set ` set (rows b))" if "b \<in> set el" for b
    using assms(1) that flat_concat_rows [of b] by (simp add: list_all_iff)
  from assms(2) obtain b g where "b \<in> set el" "g \<in> set (rows b)" "g \<noteq> []"
    by (auto simp: groups_def)
  then have "flat b \<noteq> []"
    using flat [of b] by (cases g) auto
  with \<open>b \<in> set el\<close> have ne: "?max_list \<noteq> []"
    by (auto simp: filter_empty_conv)
  then have "set ?max_list \<noteq> {}"
    using set_empty [of ?max_list] by blast
  then have "Max (set ?max_list) \<in> set ?max_list"
    by (rule Max_in [OF List.finite_set])
  then obtain b' where b': "b' \<in> set el" "flat b' \<noteq> []"
      "Max (set ?max_list) = Max (set (flat b'))"
    by auto
  have "set (flat b') \<noteq> {}"
    using b'(2) set_empty [of "flat b'"] by blast
  then have "Max (set (flat b')) \<in> set (flat b')"
    by (rule Max_in [OF List.finite_set])
  then obtain g' where "g' \<in> set (rows b')" "Max (set (flat b')) \<in> set g'"
    using flat [OF b'(1)] by auto
  then have "Max (set (flat b')) < n"
    using assms(3) b'(1) by (auto simp: groups_def)
  then have "int (Max (set ?max_list)) < int n"
    using b'(3) by simp
  then show ?thesis
    using ne by (simp add: SparseReduce_post_init_def Let_def)
qed


lemma sum_from_unique_result:
  assumes "input \<noteq> []"
  defines "un_sorted \<equiv> sort_key (count_list input) (sort (remdups input))"
  shows "\<exists>idcs max_idx.
           sum_from_unique input mean
             = Inr (un_sorted, map (count_list input) un_sorted, SparseReduce idcs mean max_idx)
           \<and> idcs \<noteq> [] \<and> list_all wf_array idcs
           \<and> groups idcs = map (positions input) un_sorted
           \<and> max_idx < int (length input)"
proof -
  let ?un = "sort (remdups input)"
  let ?l_arr = "map (\<lambda>v. length (positions input v)) ?un"
  let ?argsort = "sort_key (\<lambda>i. ?l_arr ! i) [0..<length ?l_arr]"
  let ?G = "map (\<lambda>i. map (positions input) ?un ! i) ?argsort"
  let ?ls = "map (\<lambda>i. ?l_arr ! i) ?argsort"
  have "remdups input \<noteq> []"
    using assms(1) by simp
  then have K: "0 < length ?un"
    by simp
  have arg: "\<forall>i\<in>set ?argsort. i < length ?un"
    by simp
  have vals: "map (\<lambda>i. ?un ! i) ?argsort = un_sorted"
    unfolding un_sorted_def by (rule argsort_values) (simp_all add: length_positions)
  have G: "?G = map (positions input) un_sorted"
  proof -
    have "?G = map (\<lambda>i. positions input (?un ! i)) ?argsort"
      using arg by (intro map_cong refl) simp
    also have "\<dots> = map (positions input) (map (\<lambda>i. ?un ! i) ?argsort)"
      by (simp only: map_map comp_def)
    finally show ?thesis
      by (simp only: vals)
  qed
  have cts: "map (\<lambda>i. map (count_list input) ?un ! i) ?argsort = map (count_list input) un_sorted"
  proof -
    have "map (\<lambda>i. map (count_list input) ?un ! i) ?argsort
        = map (\<lambda>i. count_list input (?un ! i)) ?argsort"
      using arg by (intro map_cong refl) simp
    also have "\<dots> = map (count_list input) (map (\<lambda>i. ?un ! i) ?argsort)"
      by (simp only: map_map comp_def)
    finally show ?thesis
      by (simp only: vals)
  qed
  have lens: "length ?G = length ?ls" "0 < length ?ls" "\<forall>j<length ?ls. length (?G ! j) = ?ls ! j"
  proof -
    show "length ?G = length ?ls" "0 < length ?ls"
      using K by simp_all
    show "\<forall>j<length ?ls. length (?G ! j) = ?ls ! j"
    proof (intro allI impI)
      fix j assume "j < length ?ls"
      then have j: "j < length ?argsort" by simp
      then have "?argsort ! j \<in> set ?argsort"
        by (rule nth_mem)
      then have "?argsort ! j < length ?un"
        using arg by blast
      then show "length (?G ! j) = ?ls ! j"
        using j by (simp only: nth_map length_map)
    qed
  qed
  from blocks_of_slices [OF lens]
  obtain el where el: "collect (map np_array (slices ?G (change_points ?ls))) = Inr el"
      "el \<noteq> []" "list_all wf_array el" "groups el = ?G"
    by blast
  have mem: "set un_sorted = set input"
    by (simp add: un_sorted_def)
  have "un_sorted \<noteq> []"
    using mem assms(1) by auto
  then have "\<exists>g\<in>set (groups el). g \<noteq> []"
    unfolding el(4) G using mem positions_nonempty [of _ input]
    by (cases un_sorted) auto
  moreover have "\<forall>g\<in>set (groups el). \<forall>i\<in>set g. i < length input"
    unfolding el(4) G by (auto dest: positions_mem)
  ultimately obtain m where m: "SparseReduce_post_init el mean None = Inr (SparseReduce el mean m)"
      "m < int (length input)"
    using SparseReduce_post_init_inferred [OF el(3)] by blast
  have "sum_from_unique input mean
      = Inr (un_sorted, map (count_list input) un_sorted, SparseReduce el mean m)"
    unfolding sum_from_unique_eq Let_def by (simp only: el(1) m(1) vals cts sum.case)
  with el(2,3,4) G m(2) show ?thesis
    by auto
qed


text \<open>
  C6. \<open>sum_from_unique\<close> on a non-empty array returns the distinct values ordered by
  multiplicity and, among equal multiplicities, in ascending order (a stable sort by
  count of the ascending distinct values), not in the order of the values; their counts
  in the same order; and a \<open>SparseReduce\<close> whose index groups are, in that order, the
  positions of each value. Applying that reduction to the column of the original values
  succeeds and gives, per group, the mean (or the sum) of the matching entries; with
  averaging that is the column of the returned unique values. The witness is the example
  of the claim: \<open>[1, 2, 3, 1, 2, 3, 1, 2, 3]\<close> with averaging gives the unique values
  \<open>[1, 2, 3]\<close>, the counts \<open>[3, 3, 3]\<close>, and a reduction that maps the column of the input to
  \<open>[1, 2, 3]\<close>.
\<close>

theorem sum_from_unique_reduces_groups:
  assumes "input \<noteq> []"
  shows "\<exists>idcs max_idx.
           sum_from_unique input mean
             = Inr (sort_key (count_list input) (sort (remdups input)),
                    map (count_list input) (sort_key (count_list input) (sort (remdups input))),
                    SparseReduce idcs mean max_idx)
           \<and> groups idcs
               = map (positions input) (sort_key (count_list input) (sort (remdups input)))
           \<and> SparseReduce_matmul idcs mean max_idx (Arr (column input))
               = Inr (Arr (column
                   (map (\<lambda>v. if mean
                              then (\<Sum>k\<leftarrow>positions input v. input ! k)
                                     / real (length (positions input v))
                              else (\<Sum>k\<leftarrow>positions input v. input ! k))
                        (sort_key (count_list input) (sort (remdups input))))))
           \<and> (mean \<longrightarrow> SparseReduce_matmul idcs mean max_idx (Arr (column input))
               = Inr (Arr (column (sort_key (count_list input) (sort (remdups input))))))"
proof -
  let ?un = "sort_key (count_list input) (sort (remdups input))"
  let ?M = "column input"
  let ?f = "\<lambda>v. if mean then (\<Sum>k\<leftarrow>positions input v. input ! k)
                               / real (length (positions input v))
                  else (\<Sum>k\<leftarrow>positions input v. input ! k)"
  from sum_from_unique_result [OF assms, of mean]
  obtain idcs max_idx where res:
      "sum_from_unique input mean = Inr (?un, map (count_list input) ?un,
         SparseReduce idcs mean max_idx)"
      "idcs \<noteq> []" "list_all wf_array idcs" "groups idcs = map (positions input) ?un"
      "max_idx < int (length input)"
    by blast
  have shape: "shape0 ?M = length input" "shape1 ?M = 1"
    by (simp_all add: column_def)
  have "\<exists>R. SparseReduce_matmul idcs mean max_idx (Arr ?M) = Inr (Arr R)"
    using res(2,5) assms by (intro SparseReduce_matmul_succeeds) (simp_all add: shape)
  then obtain R where R: "SparseReduce_matmul idcs mean max_idx (Arr ?M) = Inr (Arr R)"
    by blast
  have range: "list_all (\<lambda>b. list_all (\<lambda>i. i < shape0 ?M) (flat b)) idcs"
    unfolding list_all_iff
  proof (intro ballI)
    fix b i assume b: "b \<in> set idcs" and i: "i \<in> set (flat b)"
    have "wf_array b"
      using res(3) b by (simp add: list_all_iff)
    then have "i \<in> \<Union> (set ` set (rows b))"
      using i flat_concat_rows [of b] by simp
    then obtain g where "g \<in> set (groups idcs)" "i \<in> set g"
      using b by (auto simp: groups_def)
    then show "i < shape0 ?M"
      unfolding res(4) shape by (auto dest: positions_mem)
  qed
  have "R = of_rows (shape1 ?M) (map (red_row mean ?M) (groups idcs))"
    using res(3) range R by (rule SparseReduce_matmul_rows)
  also have "map (red_row mean ?M) (groups idcs) = map (\<lambda>v. [?f v]) ?un"
    unfolding res(4) map_map comp_def
    by (rule map_cong [OF refl], rule red_row_column) (auto dest: positions_mem)
  also have "of_rows (shape1 ?M) (map (\<lambda>v. [?f v]) ?un) = column (map ?f ?un)"
    by (simp add: of_rows_def column_def comp_def)
  finally have R': "R = column (map ?f ?un)" .
  have "map ?f ?un = ?un" if mean
  proof -
    have "?f v = v" if "v \<in> set ?un" for v
    proof -
      have "v \<in> set input"
        using that by simp
      then have "count_list input v \<noteq> 0"
        by (simp add: count_list_0_iff)
      then show ?thesis
        using \<open>mean\<close> by (simp add: sum_list_positions length_positions)
    qed
    then show ?thesis
      by (intro map_idI) blast
  qed
  with res(1,4) R R' show ?thesis
    by auto
qed

theorem sum_from_unique_reduces_groups_witness:
  "\<exists>idcs max_idx.
     sum_from_unique [1, 2, 3, 1, 2, 3, 1, 2, 3] True
       = Inr ([1, 2, 3], [3, 3, 3], SparseReduce idcs True max_idx)
     \<and> SparseReduce_matmul idcs True max_idx (Arr (column [1, 2, 3, 1, 2, 3, 1, 2, 3]))
       = Inr (Arr (column [1, 2, 3]))"
proof -
  let ?input = "[1, 2, 3, 1, 2, 3, 1, 2, 3 :: real]"
  have ne: "?input \<noteq> []" by simp
  have un: "sort_key (count_list ?input) (sort (remdups ?input)) = [1, 2, 3]"
    by simp
  have cts: "map (count_list ?input) [1, 2, 3] = [3, 3, 3]"
    by simp
  from sum_from_unique_reduces_groups [OF ne, of True]
  obtain idcs max_idx where
      "sum_from_unique ?input True
         = Inr (sort_key (count_list ?input) (sort (remdups ?input)),
                map (count_list ?input) (sort_key (count_list ?input) (sort (remdups ?input))),
                SparseReduce idcs True max_idx)"
      "SparseReduce_matmul idcs True max_idx (Arr (column ?input))
         = Inr (Arr (column (sort_key (count_list ?input) (sort (remdups ?input)))))"
    by blast
  then have "sum_from_unique ?input True = Inr ([1, 2, 3], [3, 3, 3], SparseReduce idcs True max_idx)
      \<and> SparseReduce_matmul idcs True max_idx (Arr (column ?input)) = Inr (Arr (column [1, 2, 3]))"
    unfolding un cts by simp
  then show ?thesis by blast
qed

end
